theory Spec2Isabelle
  imports Complex_Main
begin

section \<open>Constants and arrays\<close>

text \<open>
  The notebook fixes the batch size and the eight ray directions. A board is an
  8 by 8 array holding 0 (empty), 1 or 2 (the players' tokens); the batch array
  \<open>boards\<close> has one board per game. Arrays are modelled as functions on their index
  tuples, and every indexing operation of the kernels goes through a read or write
  that checks the index against the shape 8 by 8: an access outside it is the result
  \<open>Inl OutOfBounds\<close>. Cell values and coordinates are Python/Numba integers
  (no wrap-around occurs: coordinates stay between -1 and 8).
\<close>

definition N_GAMES :: nat where
  "N_GAMES = 32"

definition RAYS :: "(int \<times> int) list" where
  "RAYS = [(0, 1), (0, -1), (1, 0), (-1, 0), (1, 1), (1, -1), (-1, 1), (-1, -1)]"

datatype error = OutOfBounds | ValueError

type_synonym board = "int \<times> int \<Rightarrow> int"

definition on_board :: "int \<times> int \<Rightarrow> bool" where
  "on_board c \<longleftrightarrow> 0 \<le> fst c \<and> fst c < 8 \<and> 0 \<le> snd c \<and> snd c < 8"

definition rd :: "board \<Rightarrow> int \<Rightarrow> int \<Rightarrow> error + int" where
  "rd board x y = (if on_board (x, y) then Inr (board (x, y)) else Inl OutOfBounds)"

section \<open>Device function \<open>ray_cast\<close>\<close>

text \<open>
  The \<open>while\<close> loop of \<open>ray_cast\<close>, entered at the second cell of the ray. The source
  reads \<open>board[x, y]\<close> twice per iteration; so does the model. A loop that does not
  return is the value \<open>None\<close>.
\<close>

partial_function (option) ray_loop ::
  "board \<Rightarrow> int \<Rightarrow> int \<Rightarrow> int \<times> int \<Rightarrow> int \<Rightarrow> (error + bool) option" where
  "ray_loop board x y ray player =
     (if x \<ge> 0 \<and> y \<ge> 0 \<and> x < 8 \<and> y < 8 then
        (case rd board x y of
           Inl e \<Rightarrow> Some (Inl e)
         | Inr v \<Rightarrow>
             if v = 0 then Some (Inr False)
             else (case rd board x y of
                     Inl e \<Rightarrow> Some (Inl e)
                   | Inr w \<Rightarrow>
                       if w = player then Some (Inr True)
                       else ray_loop board (x + fst ray) (y + snd ray) ray player))
      else Some (Inr False))"

definition ray_cast ::
  "board \<Rightarrow> int \<Rightarrow> int \<Rightarrow> int \<times> int \<Rightarrow> int \<Rightarrow> (error + bool) option" where
  "ray_cast board x0 y0 ray player =
     (let opponent = 3 - player;
          x = x0 + fst ray;
          y = y0 + snd ray
      in if x < 0 \<or> y < 0 \<or> x \<ge> 8 \<or> y \<ge> 8 then Some (Inr False)
         else (case rd board x y of
                 Inl e \<Rightarrow> Some (Inl e)
               | Inr v \<Rightarrow>
                   if v \<noteq> opponent then Some (Inr False)
                   else ray_loop board (x + fst ray) (y + snd ray) ray player))"

section \<open>Lines of tokens\<close>

text \<open>
  The cell \<open>j\<close> steps from an origin along a ray, a board whose cells all hold 0, 1 or
  2, and the capturing line of the specification: at least one opposing token from
  the first step on, then a token of the mover, every cell of it on the board.
\<close>

definition ray_cell :: "int \<Rightarrow> int \<Rightarrow> int \<times> int \<Rightarrow> nat \<Rightarrow> int \<times> int" where
  "ray_cell x0 y0 ray j = (x0 + int j * fst ray, y0 + int j * snd ray)"

definition valid_board :: "board \<Rightarrow> bool" where
  "valid_board b \<longleftrightarrow> (\<forall>x\<in>{0..7}. \<forall>y\<in>{0..7}. b (x, y) \<in> {0, 1, 2})"

definition line_of :: "board \<Rightarrow> int \<Rightarrow> int \<Rightarrow> int \<times> int \<Rightarrow> int \<Rightarrow> nat \<Rightarrow> bool" where
  "line_of b x0 y0 ray player k \<longleftrightarrow>
     (\<forall>j\<in>{1..k}. on_board (ray_cell x0 y0 ray j) \<and> b (ray_cell x0 y0 ray j) = 3 - player)
     \<and> on_board (ray_cell x0 y0 ray (Suc k)) \<and> b (ray_cell x0 y0 ray (Suc k)) = player"

definition capture_line :: "board \<Rightarrow> int \<Rightarrow> int \<Rightarrow> int \<times> int \<Rightarrow> int \<Rightarrow> bool" where
  "capture_line b x0 y0 ray player \<longleftrightarrow> (\<exists>k\<in>{1..7}. line_of b x0 y0 ray player k)"


text \<open>
  What \<open>ray_cast\<close> decides on any board, valid or not: the first cell of the ray
  holds the opponent's token, the cells after it are neither empty nor the mover's
  up to the cell \<open>k + 1\<close>, which holds the mover's token.
\<close>

definition ray_hit :: "board \<Rightarrow> int \<Rightarrow> int \<Rightarrow> int \<times> int \<Rightarrow> int \<Rightarrow> nat \<Rightarrow> bool" where
  "ray_hit b x0 y0 ray player k \<longleftrightarrow>
     (\<forall>j\<in>{1..Suc k}. on_board (ray_cell x0 y0 ray j))
     \<and> b (ray_cell x0 y0 ray 1) = 3 - player
     \<and> (\<forall>j\<in>{2..k}. b (ray_cell x0 y0 ray j) \<noteq> 0 \<and> b (ray_cell x0 y0 ray j) \<noteq> player)
     \<and> b (ray_cell x0 y0 ray (Suc k)) = player \<and> player \<noteq> 0"

section \<open>Kernel launches\<close>

text \<open>
  A launch runs the kernel body once per thread. The model runs the threads one
  after another in index order, stopping at the first error. In both kernels the
  threads of a launch write pairwise disjoint cells of the boards, the scores and
  the flags, and read no cell another thread of the same phase writes (the eight
  rays from one origin share no cell, and none contains the origin), so the order
  does not show in the result. The states of the random generator are the
  exception, see \<open>find_actions\<close>.
\<close>

fun for_each :: "'i list \<Rightarrow> ('i \<Rightarrow> 's \<Rightarrow> (error + 's) option) \<Rightarrow> 's \<Rightarrow> (error + 's) option" where
  "for_each [] body s = Some (Inr s)"
| "for_each (i # is) body s =
     (case body i s of
        None \<Rightarrow> None
      | Some (Inl e) \<Rightarrow> Some (Inl e)
      | Some (Inr s') \<Rightarrow> for_each is body s')"

definition range8 :: "int list" where
  "range8 = [0, 1, 2, 3, 4, 5, 6, 7]"

section \<open>Kernel \<open>find_actions\<close>\<close>

text \<open>
  \<open>action_probs\<close> is the array of scores, indexed by game, row and column. The
  random source \<open>xoroshiro128p_uniform_float32\<close> belongs to Numba, not to the
  notebook: the model takes the value its call returns in each thread of a launch as
  a parameter, \<open>rng (bx, tx, ty)\<close>. Scores are \<open>float32\<close> values that are only stored
  and compared, modelled as reals.
\<close>

type_synonym probs = "nat \<times> int \<times> int \<Rightarrow> real"

text \<open>The loop \<open>for i in range(8)\<close> of a thread: is there a ray that hits?\<close>

fun any_hit :: "board \<Rightarrow> int \<Rightarrow> int \<Rightarrow> int \<Rightarrow> int list \<Rightarrow> (error + bool) option" where
  "any_hit b tx ty player [] = Some (Inr False)"
| "any_hit b tx ty player (i # is) =
     (case ray_cast b tx ty (RAYS ! nat i) player of
        None \<Rightarrow> None
      | Some (Inl e) \<Rightarrow> Some (Inl e)
      | Some (Inr hit) \<Rightarrow> if hit then Some (Inr True) else any_hit b tx ty player is)"

fun find_actions_thread ::
  "probs \<Rightarrow> (nat \<Rightarrow> board) \<Rightarrow> int \<Rightarrow> nat \<times> int \<times> int \<Rightarrow> probs \<Rightarrow> (error + probs) option" where
  "find_actions_thread rng bs player (bx, tx, ty) action_probs =
     (case rd (bs bx) tx ty of
        Inl e \<Rightarrow> Some (Inl e)
      | Inr v \<Rightarrow>
          if v \<noteq> 0 then Some (Inr (action_probs((bx, tx, ty) := 0)))
          else (case any_hit (bs bx) tx ty player range8 of
                  None \<Rightarrow> None
                | Some (Inl e) \<Rightarrow> Some (Inl e)
                | Some (Inr hit) \<Rightarrow>
                    if hit then Some (Inr (action_probs((bx, tx, ty) := rng (bx, tx, ty))))
                    else Some (Inr (action_probs((bx, tx, ty) := 0)))))"

definition threads :: "(nat \<times> int \<times> int) list" where
  "threads = [(bx, tx, ty). bx \<leftarrow> [0..<N_GAMES], tx \<leftarrow> range8, ty \<leftarrow> range8]"

definition find_actions ::
  "probs \<Rightarrow> (nat \<Rightarrow> board) \<Rightarrow> int \<Rightarrow> probs \<Rightarrow> (error + probs) option" where
  "find_actions rng bs player action_probs =
     for_each threads (find_actions_thread rng bs player) action_probs"

text \<open>
  The generator state that the call of a thread advances is \<open>rng_states[tid]\<close> with
  \<open>tid = cuda.grid(1)\<close>, the x index of the thread plus the index of the block times
  the x extent of the block, 8. It does not depend on \<open>ty\<close>: the eight threads of a
  row of a game call the generator on one state, and of the \<open>8 * 8 * N_GAMES\<close> states
  allocated the first \<open>8 * N_GAMES\<close> are used. What each of these calls returns
  depends on how the device interleaves them, so the model takes the returned value
  per thread.
\<close>

definition tid :: "nat \<times> int \<times> int \<Rightarrow> int" where
  "tid t = (case t of (bx, tx, ty) \<Rightarrow> tx + int bx * 8)"

section \<open>Kernel \<open>select_and_step\<close>\<close>

text \<open>
  Both phases of the reduction are the same scan, started from
  \<open>current_max = 0\<close> and \<open>current_idx = 0\<close>: over a row of \<open>action_probs\<close> in
  phase 1, over \<open>row_max\<close> in phase 2.
\<close>

fun argmax_scan :: "(int \<Rightarrow> real) \<Rightarrow> int list \<Rightarrow> real \<times> int \<Rightarrow> real \<times> int" where
  "argmax_scan a [] (current_max, current_idx) = (current_max, current_idx)"
| "argmax_scan a (i # is) (current_max, current_idx) =
     (if a i > current_max then argmax_scan a is (a i, i)
      else argmax_scan a is (current_max, current_idx))"

definition row_scan :: "probs \<Rightarrow> nat \<Rightarrow> int \<Rightarrow> real \<times> int" where
  "row_scan action_probs bx tx = argmax_scan (\<lambda>i. action_probs (bx, tx, i)) range8 (0, 0)"

definition select_action :: "probs \<Rightarrow> nat \<Rightarrow> int \<times> int" where
  "select_action action_probs bx =
     (let row_max = (\<lambda>tx. fst (row_scan action_probs bx tx));
          row_max_idx = (\<lambda>tx. snd (row_scan action_probs bx tx));
          (current_max, current_idx) = argmax_scan row_max range8 (0, 0)
      in if current_max > 0 then (current_idx, row_max_idx current_idx) else (-1, -1))"

definition wr :: "(nat \<Rightarrow> board) \<Rightarrow> nat \<Rightarrow> int \<Rightarrow> int \<Rightarrow> int \<Rightarrow> error + (nat \<Rightarrow> board)" where
  "wr bs bx x y v =
     (if on_board (x, y) then Inr (bs(bx := (bs bx)((x, y) := v))) else Inl OutOfBounds)"

definition set_status ::
  "(nat \<Rightarrow> int \<Rightarrow> int) \<Rightarrow> nat \<Rightarrow> int \<Rightarrow> int \<Rightarrow> error + (nat \<Rightarrow> int \<Rightarrow> int)" where
  "set_status ps bx j v =
     (if 0 \<le> j \<and> j < 2 then Inr (ps(bx := (ps bx)(j := v))) else Inl OutOfBounds)"

text \<open>The flip loop \<open>while boards[bx, x, y] == opponent\<close> of a thread whose ray hits.\<close>

partial_function (option) flip_loop ::
  "(nat \<Rightarrow> board) \<Rightarrow> nat \<Rightarrow> int \<Rightarrow> int \<Rightarrow> int \<times> int \<Rightarrow> int \<Rightarrow> int
     \<Rightarrow> (error + (nat \<Rightarrow> board)) option" where
  "flip_loop bs bx x y r player opponent =
     (case rd (bs bx) x y of
        Inl e \<Rightarrow> Some (Inl e)
      | Inr v \<Rightarrow>
          if v = opponent then
            (case wr bs bx x y player of
               Inl e \<Rightarrow> Some (Inl e)
             | Inr bs' \<Rightarrow> flip_loop bs' bx (x + fst r) (y + snd r) r player opponent)
          else Some (Inr bs))"

record state =
  boards :: "nat \<Rightarrow> board"
  player_status :: "nat \<Rightarrow> int \<Rightarrow> int"

text \<open>The part of thread \<open>tx\<close> of block \<open>bx\<close> after the second barrier, for a selected cell.\<close>

definition step_thread :: "int \<Rightarrow> int \<Rightarrow> int \<Rightarrow> nat \<Rightarrow> int \<Rightarrow> state \<Rightarrow> (error + state) option" where
  "step_thread act_x act_y player bx tx s =
     (let opponent = 3 - player;
          r = RAYS ! nat tx
      in case ray_cast (boards s bx) act_x act_y r player of
           None \<Rightarrow> None
         | Some (Inl e) \<Rightarrow> Some (Inl e)
         | Some (Inr hit) \<Rightarrow>
             (case (if hit then flip_loop (boards s) bx (act_x + fst r) (act_y + snd r) r player opponent
                    else Some (Inr (boards s))) of
                None \<Rightarrow> None
              | Some (Inl e) \<Rightarrow> Some (Inl e)
              | Some (Inr bs) \<Rightarrow>
                  if tx = 0 then
                    (case wr bs bx act_x act_y player of
                       Inl e \<Rightarrow> Some (Inl e)
                     | Inr bs' \<Rightarrow>
                         (case set_status (player_status s) bx (player - 1) 0 of
                            Inl e \<Rightarrow> Some (Inl e)
                          | Inr ps \<Rightarrow> Some (Inr (s\<lparr>boards := bs', player_status := ps\<rparr>))))
                  else Some (Inr (s\<lparr>boards := bs\<rparr>))))"

text \<open>
  One block: the reduction, then either the pass (thread 0 sets the status, every
  thread returns) or the eight threads casting one ray each.
\<close>

definition select_and_step_block :: "probs \<Rightarrow> int \<Rightarrow> nat \<Rightarrow> state \<Rightarrow> (error + state) option" where
  "select_and_step_block action_probs player bx s =
     (case select_action action_probs bx of
        (act_x, act_y) \<Rightarrow>
          if act_x = -1 then
            (case set_status (player_status s) bx (player - 1) 1 of
               Inl e \<Rightarrow> Some (Inl e)
             | Inr ps \<Rightarrow> Some (Inr (s\<lparr>player_status := ps\<rparr>)))
          else for_each range8 (step_thread act_x act_y player bx) s)"

definition select_and_step :: "probs \<Rightarrow> int \<Rightarrow> state \<Rightarrow> (error + state) option" where
  "select_and_step action_probs player s =
     for_each [0..<N_GAMES] (select_and_step_block action_probs player) s"

section \<open>The driver \<open>rollout\<close>\<close>

definition status_sum :: "state \<Rightarrow> int" where
  "status_sum s = (\<Sum>bx\<leftarrow>[0..<N_GAMES]. player_status s bx 0 + player_status s bx 1)"

text \<open>
  One iteration of the \<open>while\<close> loop of \<open>rollout\<close>, but for the change of player:
  the two launches, with the draws \<open>rng\<close> of this iteration. It returns the scores
  left in \<open>action_probs\<close> and the new state.
\<close>

definition turn :: "probs \<Rightarrow> int \<Rightarrow> probs \<Rightarrow> state \<Rightarrow> (error + probs \<times> state) option" where
  "turn rng player action_probs s =
     (case find_actions rng (boards s) player action_probs of
        None \<Rightarrow> None
      | Some (Inl e) \<Rightarrow> Some (Inl e)
      | Some (Inr ap) \<Rightarrow>
          (case select_and_step ap player s of
             None \<Rightarrow> None
           | Some (Inl e) \<Rightarrow> Some (Inl e)
           | Some (Inr s') \<Rightarrow> Some (Inr (ap, s'))))"

text \<open>
  The loop. \<open>turns\<close> counts the iterations run so far; it picks the draws of the
  iteration, \<open>rng turns\<close>, and is returned with the final state.
\<close>

partial_function (option) rollout_loop ::
  "(nat \<Rightarrow> probs) \<Rightarrow> nat \<Rightarrow> int \<Rightarrow> probs \<Rightarrow> state \<Rightarrow> (error + nat \<times> state) option" where
  "rollout_loop rng turns player action_probs s =
     (if status_sum s < 2 * int N_GAMES then
        (case turn (rng turns) player action_probs s of
           None \<Rightarrow> None
         | Some (Inl e) \<Rightarrow> Some (Inl e)
         | Some (Inr (ap, s')) \<Rightarrow> rollout_loop rng (Suc turns) (3 - player) ap s')
      else Some (Inr (turns, s)))"

text \<open>
  The scoring after the loop. \<open>np.bincount\<close> raises on a negative value and returns
  one count per value up to the largest one, at least \<open>minlength\<close> of them; rows of
  different lengths do not make a two-dimensional array, and the \<open>argmax\<close> along
  axis 1 raises.
\<close>

definition flatten :: "board \<Rightarrow> int list" where
  "flatten b = [b (x, y). x \<leftarrow> range8, y \<leftarrow> range8]"

definition bincount :: "int list \<Rightarrow> nat \<Rightarrow> error + nat list" where
  "bincount xs minlength =
     (if \<exists>x\<in>set xs. x < 0 then Inl ValueError
      else Inr (map (\<lambda>v. count_list xs (int v)) [0..<max minlength (nat (foldr max xs 0) + 1)]))"

fun collect :: "(error + 'a) list \<Rightarrow> error + 'a list" where
  "collect [] = Inr []"
| "collect (Inl e # rs) = Inl e"
| "collect (Inr x # rs) = (case collect rs of Inl e \<Rightarrow> Inl e | Inr xs \<Rightarrow> Inr (x # xs))"

definition np_argmax :: "nat list \<Rightarrow> nat" where
  "np_argmax xs = length (takeWhile (\<lambda>x. x \<noteq> foldr max xs 0) xs)"

definition finalize :: "(nat \<Rightarrow> board) \<Rightarrow> error + int list" where
  "finalize bs =
     (case collect (map (\<lambda>bx. bincount (flatten (bs bx)) 3) [0..<N_GAMES]) of
        Inl e \<Rightarrow> Inl e
      | Inr counts \<Rightarrow>
          (let scores = map (drop 1) counts
           in if \<exists>row\<in>set scores. length row \<noteq> length (hd scores) then Inl ValueError
              else Inr (map (\<lambda>row. if row ! 0 = row ! 1 then 0 else int (np_argmax row) + 1) scores)))"

text \<open>
  The state after the two transfers that open \<open>rollout\<close>: the starting board tiled
  over the batch, every status flag 0.
\<close>

definition init_state :: "board \<Rightarrow> state" where
  "init_state board = \<lparr>boards = (\<lambda>bx. board), player_status = (\<lambda>bx j. 0)\<rparr>"

definition rollout :: "(nat \<Rightarrow> probs) \<Rightarrow> probs \<Rightarrow> board \<Rightarrow> int \<Rightarrow> (error + int list) option" where
  "rollout rng action_probs board planner =
     (case rollout_loop rng 0 planner action_probs (init_state board) of
        None \<Rightarrow> None
      | Some (Inl e) \<Rightarrow> Some (Inl e)
      | Some (Inr (turns, s)) \<Rightarrow> Some (finalize (boards s)))"

section \<open>The opening position\<close>

text \<open>The starting board of the notebook's last cell.\<close>

definition initial_board :: board where
  "initial_board = (\<lambda>c. 0)((3, 3) := 2, (4, 4) := 2, (3, 4) := 1, (4, 3) := 1)"

text \<open>A grid of scores with ties, within a row and between rows.\<close>

definition tie_grid :: probs where
  "tie_grid = (\<lambda>t. 0)((0, 2, 3) := 1 / 2, (0, 2, 5) := 1 / 2, (0, 4, 1) := 1 / 2)"

section \<open>Legal moves and scores\<close>

text \<open>
  A move is legal on an empty cell from which some direction has a capturing line.
  \<open>score\<close> is the value the specification asks of Move-Probability Assignment for
  the cell of thread \<open>(bx, tx, ty)\<close>, given the value \<open>rng (bx, tx, ty)\<close> drawn there.
\<close>

definition legal_move :: "board \<Rightarrow> int \<Rightarrow> int \<Rightarrow> int \<Rightarrow> bool" where
  "legal_move b player x y \<longleftrightarrow> b (x, y) = 0 \<and> (\<exists>ray\<in>set RAYS. capture_line b x y ray player)"

fun score :: "probs \<Rightarrow> (nat \<Rightarrow> board) \<Rightarrow> int \<Rightarrow> nat \<times> int \<times> int \<Rightarrow> real" where
  "score rng bs player (bx, tx, ty) =
     (if bs bx (tx, ty) \<noteq> 0 then 0
      else if \<not> (\<exists>ray\<in>set RAYS. capture_line (bs bx) tx ty ray player) then 0
      else rng (bx, tx, ty))"

text \<open>The same on any board, in terms of what \<open>ray_cast\<close> decides there.\<close>

fun thread_score :: "probs \<Rightarrow> (nat \<Rightarrow> board) \<Rightarrow> int \<Rightarrow> nat \<times> int \<times> int \<Rightarrow> real" where
  "thread_score rng bs player (bx, tx, ty) =
     (if bs bx (tx, ty) \<noteq> 0 then 0
      else if \<exists>ray\<in>set RAYS. \<exists>k\<in>{1..7}. ray_hit (bs bx) tx ty ray player k then rng (bx, tx, ty)
      else 0)"

definition valid_boards :: "(nat \<Rightarrow> board) \<Rightarrow> bool" where
  "valid_boards bs \<longleftrightarrow> (\<forall>bx\<in>{0..<N_GAMES}. valid_board (bs bx))"

section \<open>The effect of a move\<close>

text \<open>
  A cell is flipped by a move at \<open>(x0, y0)\<close> when it lies on a capturing line from
  there, strictly between the origin and the mover's token that ends the line. The
  move puts the mover's token on the origin and on the flipped cells.
\<close>

definition flipped_along :: "board \<Rightarrow> int \<Rightarrow> int \<Rightarrow> int \<times> int \<Rightarrow> int \<Rightarrow> int \<times> int \<Rightarrow> bool" where
  "flipped_along b x0 y0 ray player c \<longleftrightarrow>
     (\<exists>k\<in>{1..7}. line_of b x0 y0 ray player k \<and> (\<exists>j\<in>{1..k}. c = ray_cell x0 y0 ray j))"

definition flipped :: "board \<Rightarrow> int \<Rightarrow> int \<Rightarrow> int \<Rightarrow> int \<times> int \<Rightarrow> bool" where
  "flipped b x0 y0 player c \<longleftrightarrow> (\<exists>ray\<in>set RAYS. flipped_along b x0 y0 ray player c)"

definition apply_move :: "board \<Rightarrow> int \<Rightarrow> int \<Rightarrow> int \<Rightarrow> board" where
  "apply_move b x0 y0 player = (\<lambda>c. if c = (x0, y0) \<or> flipped b x0 y0 player c then player else b c)"

text \<open>
  The board and the status flag a block leaves for its game: the move at the selected
  cell and the flag 0, or the unchanged board and the flag 1 when no cell is selected.
\<close>

definition move_board :: "probs \<Rightarrow> int \<Rightarrow> nat \<Rightarrow> board \<Rightarrow> board" where
  "move_board ap player bx b =
     (case select_action ap bx of (ax, ay) \<Rightarrow> if ax = -1 then b else apply_move b ax ay player)"

definition move_flag :: "probs \<Rightarrow> nat \<Rightarrow> int" where
  "move_flag ap bx = (case select_action ap bx of (ax, ay) \<Rightarrow> if ax = -1 then 1 else 0)"

text \<open>A grid with a single positive score.\<close>

definition one_move_grid :: probs where
  "one_move_grid = (\<lambda>t. 0)((0, 2, 3) := 1 / 2)"

section \<open>Token counts and outcomes\<close>

text \<open>
  The number of tokens of a player on a board, counted over the 64 cells, and the
  outcome the specification assigns: the player with strictly more tokens, 0 for a
  draw.
\<close>

definition cells :: "(int \<times> int) list" where
  "cells = [(x, y). x \<leftarrow> range8, y \<leftarrow> range8]"

definition tokens :: "board \<Rightarrow> int \<Rightarrow> nat" where
  "tokens b player = length (filter (\<lambda>c. b c = player) cells)"

definition outcome :: "board \<Rightarrow> int" where
  "outcome b = (if tokens b 1 > tokens b 2 then 1 else if tokens b 2 > tokens b 1 then 2 else 0)"

section \<open>Turns\<close>

text \<open>
  The scores a launch of \<open>find_actions\<close> leaves in \<open>action_probs\<close>, a mover
  without a legal move on a board, draws in the open unit interval (what the
  specification asks of the random source), and the number of empty cells of a board
  and of the batch.
\<close>

definition scores :: "probs \<Rightarrow> (nat \<Rightarrow> board) \<Rightarrow> int \<Rightarrow> probs \<Rightarrow> probs" where
  "scores rng bs player ap = (\<lambda>t. if t \<in> set threads then thread_score rng bs player t else ap t)"

definition no_move :: "board \<Rightarrow> int \<Rightarrow> bool" where
  "no_move b player \<longleftrightarrow> (\<forall>x\<in>{0..7}. \<forall>y\<in>{0..7}. \<not> legal_move b player x y)"

definition unit_draws :: "probs \<Rightarrow> bool" where
  "unit_draws rng \<longleftrightarrow> (\<forall>t. 0 < rng t \<and> rng t < 1)"

definition empties :: "board \<Rightarrow> nat" where
  "empties b = tokens b 0"

definition total_empty :: "state \<Rightarrow> nat" where
  "total_empty s = (\<Sum>bx\<leftarrow>[0..<N_GAMES]. empties (boards s bx))"

text \<open>
  What holds of a game between two turns when \<open>player\<close> moves next: its flags are 0
  or 1, a set flag of the other player means that player has no move on the present
  board, and two set flags mean that neither has. The measure bounds the turns the
  game can still change: 0 once both flags are set, else twice the empty cells plus
  2, less the passes just made.
\<close>

definition game_inv :: "board \<Rightarrow> (int \<Rightarrow> int) \<Rightarrow> int \<Rightarrow> bool" where
  "game_inv b f player \<longleftrightarrow>
     valid_board b \<and> f 0 \<in> {0, 1} \<and> f 1 \<in> {0, 1}
     \<and> (f (3 - player - 1) = 1 \<longrightarrow> no_move b (3 - player))
     \<and> (f (3 - player - 1) = 1 \<and> f (player - 1) = 1 \<longrightarrow> no_move b player)"

definition game_measure :: "board \<Rightarrow> (int \<Rightarrow> int) \<Rightarrow> int \<Rightarrow> nat" where
  "game_measure b f player =
     (if f (3 - player - 1) = 0 then 2 * empties b + 2
      else if f (player - 1) = 0 then 2 * empties b + 1
      else 0)"

text \<open>
  The same for the whole batch, whatever the draws are. A game can play in a turn
  when some legal cell of its mover gets a positive draw. The flags of the batch are
  0 or 1, and a player has passed everywhere when its flag is set in every game. The
  measure of the loop is twice the empty cells of the batch, plus 2 while the player
  who moved last has not passed everywhere, plus 1 while only the player to move has
  not.
\<close>

definition can_play :: "probs \<Rightarrow> board \<Rightarrow> int \<Rightarrow> nat \<Rightarrow> bool" where
  "can_play r b player bx \<longleftrightarrow>
     (\<exists>x\<in>{0..7}. \<exists>y\<in>{0..7}. legal_move b player x y \<and> 0 < r (bx, x, y))"

definition flags_ok :: "state \<Rightarrow> bool" where
  "flags_ok s \<longleftrightarrow> (\<forall>bx<N_GAMES. player_status s bx 0 \<in> {0, 1} \<and> player_status s bx 1 \<in> {0, 1})"

definition all_passed :: "state \<Rightarrow> int \<Rightarrow> bool" where
  "all_passed s player \<longleftrightarrow> (\<forall>bx<N_GAMES. player_status s bx (player - 1) = 1)"

definition loop_measure :: "state \<Rightarrow> int \<Rightarrow> nat" where
  "loop_measure s player =
     2 * total_empty s
     + (if \<not> all_passed s (3 - player) then 2 else if \<not> all_passed s player then 1 else 0)"

text \<open>Inputs for examples: the empty board, draws that are all one half, a grid of zeros.\<close>

definition empty_board :: board where
  "empty_board = (\<lambda>c. 0)"

definition half_draws :: "nat \<Rightarrow> probs" where
  "half_draws = (\<lambda>turns t. 1 / 2)"

definition zero_grid :: probs where
  "zero_grid = (\<lambda>t. 0)"

section \<open>Boards as rows, and games played move by move\<close>

text \<open>
  A board written as eight rows of eight cells, and back. \<open>flipped_cells\<close> lists the
  cells a move flips, ray by ray; \<open>play\<close> follows a list of moves from a position,
  the players alternating, as long as each move is on an empty cell and flips
  something, and returns the rows of the position reached.
\<close>

definition board_of :: "int list list \<Rightarrow> board" where
  "board_of rows = (\<lambda>c. if on_board c then rows ! nat (fst c) ! nat (snd c) else 0)"

definition rows_of :: "board \<Rightarrow> int list list" where
  "rows_of b = map (\<lambda>x. map (\<lambda>y. b (x, y)) range8) range8"

definition flipped_cells :: "board \<Rightarrow> int \<Rightarrow> int \<Rightarrow> int \<Rightarrow> (int \<times> int) list" where
  "flipped_cells b x0 y0 player =
     concat (map (\<lambda>ray. case List.find (line_of b x0 y0 ray player) [1..<8] of
                            None \<Rightarrow> []
                          | Some k \<Rightarrow> map (ray_cell x0 y0 ray) [1..<Suc k]) RAYS)"

definition put_cells :: "board \<Rightarrow> (int \<times> int) list \<Rightarrow> int \<Rightarrow> board" where
  "put_cells b cs player = (\<lambda>c. if c \<in> set cs then player else b c)"

fun play :: "(int \<times> int) list \<Rightarrow> int list list \<Rightarrow> int \<Rightarrow> int list list option" where
  "play [] rows player = Some rows"
| "play (m # ms) rows player =
     (if on_board m \<and> board_of rows m = 0 then
        (case flipped_cells (board_of rows) (fst m) (snd m) player of
           [] \<Rightarrow> None
         | c # cs \<Rightarrow> play ms (rows_of (put_cells (board_of rows) (m # c # cs) player)) (3 - player))
      else None)"

text \<open>
  Draws that make the reduction select a given cell in every game (three quarters
  there, one quarter elsewhere), turn after turn along a list of moves; a state in
  which all games of the batch have the same board and the same flags.
\<close>

definition target_draws :: "int \<times> int \<Rightarrow> probs" where
  "target_draws m = (\<lambda>t. if snd t = m then 3 / 4 else 1 / 4)"

definition game_draws :: "(int \<times> int) list \<Rightarrow> nat \<Rightarrow> probs" where
  "game_draws ms = (\<lambda>turns. if turns < length ms then target_draws (ms ! turns) else (\<lambda>t. 1 / 2))"

definition uniform_state :: "board \<Rightarrow> board \<Rightarrow> (int \<Rightarrow> int) \<Rightarrow> state" where
  "uniform_state b0 b f =
     \<lparr>boards = (\<lambda>bx. if bx < N_GAMES then b else b0),
      player_status = (\<lambda>bx. if bx < N_GAMES then f else (\<lambda>j. 0))\<rparr>"

text \<open>
  A game of sixty moves from the opening position in which nobody passes, and the
  rows it starts from and ends with; a game of eight moves from the opening position
  after which player 1, who is to move, cannot and player 2 can, and the rows it ends
  with.
\<close>

definition opening_rows :: "int list list" where
  "opening_rows =
     [[0, 0, 0, 0, 0, 0, 0, 0],
      [0, 0, 0, 0, 0, 0, 0, 0],
      [0, 0, 0, 0, 0, 0, 0, 0],
      [0, 0, 0, 2, 1, 0, 0, 0],
      [0, 0, 0, 1, 2, 0, 0, 0],
      [0, 0, 0, 0, 0, 0, 0, 0],
      [0, 0, 0, 0, 0, 0, 0, 0],
      [0, 0, 0, 0, 0, 0, 0, 0]]"

definition full_game :: "(int \<times> int) list" where
  "full_game =
     [(5, 4), (5, 3), (2, 2), (3, 5), (6, 3), (4, 2), (3, 6), (2, 6), (3, 2), (4, 6),
      (4, 1), (6, 2), (4, 5), (4, 0), (5, 0), (7, 3), (3, 0), (6, 5), (5, 5), (2, 3),
      (3, 7), (1, 2), (6, 4), (2, 4), (5, 6), (7, 5), (3, 1), (2, 1), (1, 4), (4, 7),
      (5, 1), (2, 5), (5, 7), (6, 6), (5, 2), (6, 0), (1, 3), (0, 3), (0, 2), (0, 1),
      (7, 2), (1, 1), (6, 7), (7, 7), (1, 7), (2, 0), (2, 7), (0, 7), (1, 5), (1, 6),
      (0, 5), (0, 6), (7, 4), (7, 6), (1, 0), (0, 0), (6, 1), (7, 1), (7, 0), (0, 4)]"

definition final_rows :: "int list list" where
  "final_rows =
     [[2, 2, 2, 2, 2, 2, 2, 2],
      [2, 2, 1, 2, 2, 2, 2, 2],
      [2, 1, 2, 1, 2, 1, 2, 2],
      [2, 2, 1, 2, 2, 1, 2, 2],
      [2, 2, 2, 2, 2, 1, 2, 2],
      [2, 2, 1, 2, 2, 2, 2, 2],
      [2, 1, 2, 1, 1, 2, 2, 2],
      [1, 2, 2, 2, 2, 2, 2, 2]]"

definition pass_game :: "(int \<times> int) list" where
  "pass_game = [(2, 3), (2, 2), (5, 4), (1, 3), (0, 3), (0, 4), (1, 1), (0, 2)]"

definition pass_rows :: "int list list" where
  "pass_rows =
     [[0, 0, 2, 2, 2, 0, 0, 0],
      [0, 1, 0, 2, 0, 0, 0, 0],
      [0, 0, 1, 1, 0, 0, 0, 0],
      [0, 0, 0, 1, 1, 0, 0, 0],
      [0, 0, 0, 1, 1, 0, 0, 0],
      [0, 0, 0, 0, 1, 0, 0, 0],
      [0, 0, 0, 0, 0, 0, 0, 0],
      [0, 0, 0, 0, 0, 0, 0, 0]]"

text \<open>A board that is 0 outside the 8 by 8 cells, as every board written as rows is.\<close>

definition clean_board :: "board \<Rightarrow> bool" where
  "clean_board b \<longleftrightarrow> (\<forall>c. \<not> on_board c \<longrightarrow> b c = 0)"

section \<open>What \<open>ray_cast\<close> computes\<close>

text \<open>
  The loop of \<open>ray_cast\<close> returns as soon as the ray leaves the board, which it does
  within \<open>n\<close> steps; until then it looks for the first token of the mover behind
  cells that are neither empty nor the mover's.
\<close>

lemma ray_loop_eq:
  assumes "\<exists>m\<le>n. \<not> on_board (x + int m * dx, y + int m * dy)"
  shows "ray_loop b x y (dx, dy) p = Some (Inr (\<exists>k<n.
           (\<forall>j<k. on_board (ray_cell x y (dx, dy) j) \<and> b (ray_cell x y (dx, dy) j) \<noteq> 0
                    \<and> b (ray_cell x y (dx, dy) j) \<noteq> p)
           \<and> on_board (ray_cell x y (dx, dy) k) \<and> b (ray_cell x y (dx, dy) k) = p \<and> p \<noteq> 0))"
  using assms
proof (induction n arbitrary: x y)
  case 0
  then show ?case by (subst ray_loop.simps) (auto simp: on_board_def)
next
  case (Suc n)
  let ?c = "ray_cell x y (dx, dy)"
  let ?c' = "ray_cell (x + dx) (y + dy) (dx, dy)"
  let ?Q = "\<lambda>c k. (\<forall>j<k. on_board (c j) \<and> b (c j) \<noteq> 0 \<and> b (c j) \<noteq> p)
           \<and> on_board (c k) \<and> b (c k) = p \<and> p \<noteq> 0"
  have shift: "?c (Suc j) = ?c' j" for j
    by (simp add: ray_cell_def algebra_simps)
  have c0: "?c 0 = (x, y)" by (simp add: ray_cell_def)
  show ?case
  proof (cases "on_board (x, y)")
    case False
    have "\<not> ?Q ?c k" for k
      using False c0 by (cases k) auto
    then show ?thesis using False
      by (subst ray_loop.simps) (auto simp: on_board_def)
  next
    case True
    from Suc.prems obtain m where m: "m \<le> Suc n" "\<not> on_board (x + int m * dx, y + int m * dy)" by blast
    with True obtain m' where m': "m = Suc m'" by (cases m) auto
    have "\<exists>m\<le>n. \<not> on_board (x + dx + int m * dx, y + dy + int m * dy)"
      using m m' by (intro exI[of _ m']) (simp add: algebra_simps)
    note IH = Suc.IH[OF this]
    show ?thesis
    proof (cases "b (x, y) = 0")
      case z: True
      have "\<not> ?Q ?c k" for k
        using z c0 by (cases k) auto
      then show ?thesis using True z
        by (subst ray_loop.simps) (auto simp: on_board_def rd_def)
    next
      case nz: False
      show ?thesis
      proof (cases "b (x, y) = p")
        case True2: True
        have "?Q ?c 0" using True True2 nz c0 by auto
        then have "\<exists>k<Suc n. ?Q ?c k" by blast
        then show ?thesis using True nz True2
          by (subst ray_loop.simps) (simp add: on_board_def rd_def)
      next
        case np: False
        have "(\<exists>k<Suc n. ?Q ?c k) \<longleftrightarrow> (\<exists>k<n. ?Q ?c' k)"
        proof
          assume "\<exists>k<Suc n. ?Q ?c k"
          then obtain k where k: "k < Suc n" "?Q ?c k" by blast
          with np c0 obtain k' where k': "k = Suc k'" by (cases k) auto
          have "?Q ?c' k'" using k(2) unfolding k' shift[symmetric] by auto
          then show "\<exists>k<n. ?Q ?c' k" using k(1) k' by auto
        next
          assume "\<exists>k<n. ?Q ?c' k"
          then obtain k where k: "k < n" "?Q ?c' k" by blast
          have "?Q ?c (Suc k)"
          proof (intro conjI allI impI)
            fix j assume "j < Suc k"
            then show "on_board (?c j)" "b (?c j) \<noteq> 0" "b (?c j) \<noteq> p"
              using k(2) True nz np c0 shift by (cases j; force)+
          qed (use k(2) shift in auto)
          then show "\<exists>k<Suc n. ?Q ?c k" using k(1) by blast
        qed
        then show ?thesis using True nz np IH
          by (subst ray_loop.simps) (simp add: on_board_def rd_def)
      qed
    qed
  qed
qed


lemma RAYS_cases:
  assumes "ray \<in> set RAYS"
  shows "fst ray \<in> {-1, 0, 1} \<and> snd ray \<in> {-1, 0, 1} \<and> ray \<noteq> (0, 0)"
  using assms by (auto simp: RAYS_def)

lemma RAYS_exit:
  assumes "ray \<in> set RAYS" "on_board (x, y)"
  shows "\<not> on_board (x + 8 * fst ray, y + 8 * snd ray)"
  using assms by (auto simp: RAYS_def on_board_def)

lemma ray_cast_eq:
  assumes ray: "ray \<in> set RAYS"
  shows "ray_cast b x0 y0 ray p = Some (Inr (\<exists>k\<in>{1..7}. ray_hit b x0 y0 ray p k))"
proof -
  obtain dx dy where r: "ray = (dx, dy)" by (cases ray)
  let ?c = "ray_cell x0 y0 ray"
  have c1: "?c 1 = (x0 + dx, y0 + dy)" by (simp add: ray_cell_def r)
  show ?thesis
  proof (cases "on_board (?c 1) \<and> b (?c 1) = 3 - p")
    case False
    have "\<not> ray_hit b x0 y0 ray p k" if "k \<in> {1..7}" for k
      using False that by (auto simp: ray_hit_def)
    then have "\<not> (\<exists>k\<in>{1..7}. ray_hit b x0 y0 ray p k)" by blast
    moreover have "ray_cast b x0 y0 ray p = Some (Inr False)"
      using False unfolding c1 by (auto simp: ray_cast_def Let_def rd_def r on_board_def)
    ultimately show ?thesis by simp
  next
    case True
    let ?x = "x0 + dx + dx" and ?y = "y0 + dy + dy"
    let ?c2 = "ray_cell ?x ?y (dx, dy)"
    have shift: "?c2 j = ?c (j + 2)" for j
      by (simp add: ray_cell_def r algebra_simps)
    have "\<not> on_board (x0 + dx + 8 * dx, y0 + dy + 8 * dy)"
      using RAYS_exit[OF ray, of "x0 + dx" "y0 + dy"] True c1 by (simp add: r)
    then have "\<exists>m\<le>7. \<not> on_board (?x + int m * dx, ?y + int m * dy)"
      by (intro exI[of _ 7]) (simp add: algebra_simps)
    note L = ray_loop_eq[OF this, of b p, unfolded shift]
    let ?Q = "\<lambda>k. (\<forall>j<k. on_board (?c (j + 2)) \<and> b (?c (j + 2)) \<noteq> 0 \<and> b (?c (j + 2)) \<noteq> p)
           \<and> on_board (?c (k + 2)) \<and> b (?c (k + 2)) = p \<and> p \<noteq> 0"
    have "(\<exists>k<7. ?Q k) \<longleftrightarrow> (\<exists>k\<in>{1..7}. ray_hit b x0 y0 ray p k)"
    proof
      assume "\<exists>k<7. ?Q k"
      then obtain k where k: "k < 7" "?Q k" by blast
      have A: "on_board (?c j)" if j: "j \<in> {1..Suc (Suc k)}" for j
      proof (cases "j = 1")
        case True
        then show ?thesis using \<open>on_board (?c 1) \<and> b (?c 1) = 3 - p\<close> by simp
      next
        case False
        then have i: "j = (j - 2) + 2" "j - 2 \<le> k" using j by auto
        show ?thesis
        proof (cases "j - 2 = k")
          case True
          then show ?thesis using k(2) i(1) by metis
        next
          case False
          then have "j - 2 < k" using i(2) by simp
          then show ?thesis using k(2) i(1) by metis
        qed
      qed
      have B: "b (?c j) \<noteq> 0 \<and> b (?c j) \<noteq> p" if j: "j \<in> {2..Suc k}" for j
      proof -
        from j have i: "j = (j - 2) + 2" "j - 2 < k" by auto
        then show ?thesis using k(2) by metis
      qed
      have C: "b (?c 1) = 3 - p" using True by simp
      have D: "b (?c (Suc (Suc k))) = p" "p \<noteq> 0" using k(2) by simp_all
      have "ray_hit b x0 y0 ray p (Suc k)"
        unfolding ray_hit_def using A B C D by blast
      then show "\<exists>k\<in>{1..7}. ray_hit b x0 y0 ray p k" using k(1) by (intro bexI[of _ "Suc k"]) auto
    next
      assume "\<exists>k\<in>{1..7}. ray_hit b x0 y0 ray p k"
      then obtain k where k: "k \<in> {1..7}" "ray_hit b x0 y0 ray p k" by blast
      then obtain k' where k': "k = Suc k'" by (cases k) auto
      have "?Q k'"
        using k(2) unfolding ray_hit_def k' by auto
      then show "\<exists>k<7. ?Q k" using k(1) k' by (intro exI[of _ k']) auto
    qed
    then have "ray_loop b ?x ?y (dx, dy) p = Some (Inr (\<exists>k\<in>{1..7}. ray_hit b x0 y0 ray p k))"
      using L by simp
    moreover have "ray_cast b x0 y0 ray p = ray_loop b ?x ?y (dx, dy) p"
      using True unfolding c1 by (simp add: ray_cast_def Let_def rd_def r on_board_def)
    ultimately show ?thesis by simp
  qed
qed

lemma valid_boardD:
  assumes "valid_board b" "on_board c"
  shows "b c = 0 \<or> b c = 1 \<or> b c = 2"
proof -
  obtain x y where c: "c = (x, y)" by (cases c)
  have "x \<in> {0..7}" "y \<in> {0..7}" using assms(2) by (auto simp: on_board_def c)
  then show ?thesis using assms(1) unfolding valid_board_def c by blast
qed

lemma ray_hit_line_of:
  assumes v: "valid_board b" and p: "player = 1 \<or> player = 2" and k: "1 \<le> k"
  shows "ray_hit b x0 y0 ray player k \<longleftrightarrow> line_of b x0 y0 ray player k"
proof
  assume h: "ray_hit b x0 y0 ray player k"
  let ?c = "ray_cell x0 y0 ray"
  have on: "on_board (?c j)" if "j \<in> {1..Suc k}" for j using h that unfolding ray_hit_def by blast
  have "b (?c j) = 3 - player" if j: "j \<in> {1..k}" for j
  proof (cases "j = 1")
    case True
    then show ?thesis using h unfolding ray_hit_def by simp
  next
    case False
    then have "j \<in> {2..k}" using j by auto
    then have "b (?c j) \<noteq> 0" "b (?c j) \<noteq> player" using h unfolding ray_hit_def by blast+
    moreover have "on_board (?c j)" using on j by auto
    ultimately show ?thesis using valid_boardD[OF v, of "?c j"] p by auto
  qed
  then show "line_of b x0 y0 ray player k"
    using h on unfolding line_of_def ray_hit_def by auto
next
  assume l: "line_of b x0 y0 ray player k"
  let ?c = "ray_cell x0 y0 ray"
  have "on_board (?c j)" if "j \<in> {1..Suc k}" for j
    using l that unfolding line_of_def by (cases "j = Suc k") auto
  moreover have "b (?c 1) = 3 - player" using l k unfolding line_of_def by auto
  moreover have "b (?c j) \<noteq> 0 \<and> b (?c j) \<noteq> player" if "j \<in> {2..k}" for j
  proof -
    have "b (?c j) = 3 - player" using l that unfolding line_of_def by auto
    then show ?thesis using p by auto
  qed
  ultimately show "ray_hit b x0 y0 ray player k"
    using l p unfolding ray_hit_def line_of_def by auto
qed

lemma ray_cast_valid:
  assumes "valid_board b" "player = 1 \<or> player = 2" "ray \<in> set RAYS"
  shows "ray_cast b x0 y0 ray player = Some (Inr (capture_line b x0 y0 ray player))"
proof -
  have "(\<exists>k\<in>{1..7}. ray_hit b x0 y0 ray player k) \<longleftrightarrow> capture_line b x0 y0 ray player"
    unfolding capture_line_def using ray_hit_line_of[OF assms(1,2)] by auto
  then show ?thesis using ray_cast_eq[OF assms(3)] by simp
qed

lemma line_of_unique:
  assumes "line_of b x0 y0 ray player k" "line_of b x0 y0 ray player k'" "player \<noteq> 3 - player"
  shows "k = k'"
proof (rule ccontr)
  assume "k \<noteq> k'"
  then consider "k < k'" | "k' < k" by linarith
  then show False
  proof cases
    case 1
    then have "Suc k \<in> {1..k'}" by auto
    then show ?thesis using assms unfolding line_of_def by metis
  next
    case 2
    then have "Suc k' \<in> {1..k}" by auto
    then show ?thesis using assms unfolding line_of_def by metis
  qed
qed


lemma not_capture_line:
  assumes m: "\<forall>j\<in>{1..m}. b (ray_cell x0 y0 ray j) = 3 - player"
    and s: "\<not> on_board (ray_cell x0 y0 ray (Suc m)) \<or> b (ray_cell x0 y0 ray (Suc m)) = 0"
    and p: "player = 1 \<or> player = 2"
  shows "\<not> capture_line b x0 y0 ray player"
proof
  assume "capture_line b x0 y0 ray player"
  then obtain k where k: "1 \<le> k" "line_of b x0 y0 ray player k"
    unfolding capture_line_def by auto
  have pp: "player \<noteq> 0" "3 - player \<noteq> 0" "3 - player \<noteq> player" using p by auto
  consider "k < m" | "k = m" | "m < k" by linarith
  then show False
  proof cases
    case 1
    then have "Suc k \<in> {1..m}" by auto
    then have "b (ray_cell x0 y0 ray (Suc k)) = 3 - player" using m by blast
    then show ?thesis using k(2) pp unfolding line_of_def by simp
  next
    case 2
    then show ?thesis using k(2) s pp unfolding line_of_def by auto
  next
    case 3
    then have "Suc m \<in> {1..k}" by auto
    then have "on_board (ray_cell x0 y0 ray (Suc m)) \<and> b (ray_cell x0 y0 ray (Suc m)) = 3 - player"
      using k(2) unfolding line_of_def by blast
    then show ?thesis using s pp by auto
  qed
qed

text \<open>
  C1. On a board of empty cells and tokens, for a mover 1 or 2 and one of the eight
  directions, \<open>ray_cast\<close> returns, and returns true exactly when a line of at least
  one opposing token starts one step from the origin and ends in a token of the
  mover. It returns false when the first step is off the board or not an opposing
  token, and when the opposing tokens are followed by an empty cell or by the edge of
  the board.
\<close>

theorem ray_cast_capture_line:
  assumes "valid_board b" and "player = 1 \<or> player = 2" and "ray \<in> set RAYS"
  shows "ray_cast b x0 y0 ray player = Some (Inr (capture_line b x0 y0 ray player))
    \<and> (\<not> on_board (ray_cell x0 y0 ray 1) \<or> b (ray_cell x0 y0 ray 1) \<noteq> 3 - player
         \<longrightarrow> ray_cast b x0 y0 ray player = Some (Inr False))
    \<and> (\<forall>m. (\<forall>j\<in>{1..m}. b (ray_cell x0 y0 ray j) = 3 - player)
            \<and> on_board (ray_cell x0 y0 ray (Suc m)) \<and> b (ray_cell x0 y0 ray (Suc m)) = 0
         \<longrightarrow> ray_cast b x0 y0 ray player = Some (Inr False))
    \<and> (\<forall>m. (\<forall>j\<in>{1..m}. b (ray_cell x0 y0 ray j) = 3 - player)
            \<and> \<not> on_board (ray_cell x0 y0 ray (Suc m))
         \<longrightarrow> ray_cast b x0 y0 ray player = Some (Inr False))"
proof -
  note eq = ray_cast_valid[OF assms, of x0 y0]
  have first: "ray_cast b x0 y0 ray player = Some (Inr False)"
    if "\<not> on_board (ray_cell x0 y0 ray 1) \<or> b (ray_cell x0 y0 ray 1) \<noteq> 3 - player"
  proof -
    have "\<not> line_of b x0 y0 ray player k" if "k \<in> {1..7}" for k
      using that \<open>\<not> on_board (ray_cell x0 y0 ray 1) \<or> b (ray_cell x0 y0 ray 1) \<noteq> 3 - player\<close>
      unfolding line_of_def by auto
    then show ?thesis using eq unfolding capture_line_def by auto
  qed
  have stop: "ray_cast b x0 y0 ray player = Some (Inr False)"
    if "\<forall>j\<in>{1..m}. b (ray_cell x0 y0 ray j) = 3 - player"
      and "\<not> on_board (ray_cell x0 y0 ray (Suc m)) \<or> b (ray_cell x0 y0 ray (Suc m)) = 0" for m
    using not_capture_line[OF that assms(2)] eq by simp
  show ?thesis using eq first stop by blast
qed

theorem ray_cast_capture_line_witness:
  "valid_board initial_board \<and> (1, 0) \<in> set RAYS
   \<and> ray_cast initial_board 2 3 (1, 0) 1 = Some (Inr True)"
proof -
  have v: "valid_board initial_board"
    by (auto simp: valid_board_def initial_board_def)
  have r: "(1, 0) \<in> set RAYS" by (simp add: RAYS_def)
  have "line_of initial_board 2 3 (1, 0) 1 1"
    by (simp add: line_of_def ray_cell_def on_board_def initial_board_def)
  then have c: "capture_line initial_board 2 3 (1, 0) 1"
    unfolding capture_line_def by (intro bexI[of _ 1]) simp_all
  show ?thesis using ray_cast_capture_line[OF v _ r, of 1 2 3] v r c by simp
qed

section \<open>The reduction of \<open>select_and_step\<close>\<close>

lemma argmax_scan_spec:
  assumes "sorted_wrt (<) is"
  shows "case argmax_scan a is (cm, ci) of (m, i) \<Rightarrow>
           cm \<le> m \<and> (\<forall>j\<in>set is. a j \<le> m) \<and>
           ((\<forall>j\<in>set is. a j \<le> cm) \<longrightarrow> m = cm \<and> i = ci) \<and>
           ((\<exists>j\<in>set is. a j > cm) \<longrightarrow> i \<in> set is \<and> a i = m \<and> (\<forall>j\<in>set is. j < i \<longrightarrow> a j < m))"
  using assms
proof (induction "is" arbitrary: cm ci)
  case Nil
  then show ?case by simp
next
  case (Cons j "is")
  have s: "sorted_wrt (<) is" and lt: "\<forall>k\<in>set is. j < k" using Cons.prems by auto
  show ?case
  proof (cases "a j > cm")
    case True
    obtain m i where r: "argmax_scan a is (a j, j) = (m, i)" by (cases "argmax_scan a is (a j, j)")
    note IH = Cons.IH[OF s, where cm = "a j" and ci = j, unfolded r, simplified]
    have "argmax_scan a (j # is) (cm, ci) = (m, i)" using True r by simp
    moreover have "cm \<le> m" using IH True by linarith
    moreover have "\<forall>k\<in>set (j # is). a k \<le> m" using IH by auto
    moreover have "i \<in> set (j # is) \<and> a i = m \<and> (\<forall>k\<in>set (j # is). k < i \<longrightarrow> a k < m)"
    proof (cases "\<forall>k\<in>set is. a k \<le> a j")
      case True
      then have "m = a j" "i = j" using IH by auto
      then show ?thesis using lt by auto
    next
      case False
      then obtain k where k: "k \<in> set is" "a k > a j" by force
      then have "\<exists>k\<in>set is. a j < a k" by blast
      then have *: "i \<in> set is" "a i = m" "\<forall>k\<in>set is. k < i \<longrightarrow> a k < m" using IH by blast+
      have "a k \<le> m" using IH k(1) by blast
      then have "a j < m" using k(2) by simp
      then show ?thesis using * by auto
    qed
    ultimately show ?thesis using True by auto
  next
    case False
    obtain m i where r: "argmax_scan a is (cm, ci) = (m, i)" by (cases "argmax_scan a is (cm, ci)")
    note IH = Cons.IH[OF s, where cm = cm and ci = ci, unfolded r, simplified]
    have e: "argmax_scan a (j # is) (cm, ci) = (m, i)" using False r by simp
    have 1: "cm \<le> m" using IH by simp
    have 2: "\<forall>k\<in>set (j # is). a k \<le> m" using IH False by auto
    have 3: "(\<forall>k\<in>set (j # is). a k \<le> cm) \<longrightarrow> m = cm \<and> i = ci" using IH by auto
    have 4: "i \<in> set (j # is) \<and> a i = m \<and> (\<forall>k\<in>set (j # is). k < i \<longrightarrow> a k < m)"
      if "\<exists>k\<in>set (j # is). a k > cm"
    proof -
      from that False have ex: "\<exists>k\<in>set is. a k > cm" by auto
      then have *: "i \<in> set is" "a i = m" "\<forall>k\<in>set is. k < i \<longrightarrow> a k < m" using IH by blast+
      from ex obtain k where k: "k \<in> set is" "a k > cm" by blast
      have "a k \<le> m" using IH k(1) by blast
      then have "cm < m" using k(2) by simp
      then have "a j < m" using False by simp
      then show ?thesis using * by auto
    qed
    show ?thesis unfolding e using 1 2 3 4 by simp
  qed
qed

lemma range8_sorted: "sorted_wrt (<) range8"
  by (simp add: range8_def)

lemma set_range8: "set range8 = {0..7}"
  by (auto simp: range8_def)

lemma row_scan_spec:
  "case row_scan ap bx tx of (m, c) \<Rightarrow>
     0 \<le> m \<and> (\<forall>ty\<in>{0..7}. ap (bx, tx, ty) \<le> m) \<and>
     ((\<forall>ty\<in>{0..7}. ap (bx, tx, ty) \<le> 0) \<longrightarrow> m = 0 \<and> c = 0) \<and>
     ((\<exists>ty\<in>{0..7}. ap (bx, tx, ty) > 0) \<longrightarrow>
        c \<in> {0..7} \<and> ap (bx, tx, c) = m \<and> (\<forall>ty\<in>{0..7}. ty < c \<longrightarrow> ap (bx, tx, ty) < m))"
  using argmax_scan_spec[OF range8_sorted, where a = "\<lambda>i. ap (bx, tx, i)" and cm = 0 and ci = 0]
  unfolding row_scan_def set_range8 .

lemma select_action_none:
  assumes "\<forall>tx\<in>{0..7}. \<forall>ty\<in>{0..7}. ap (bx, tx, ty) \<le> 0"
  shows "select_action ap bx = (-1, -1)"
proof -
  have "fst (row_scan ap bx tx) = 0" if "tx \<in> {0..7}" for tx
    using row_scan_spec[of ap bx tx] assms that by (auto split: prod.splits)
  then have "\<forall>tx\<in>set range8. fst (row_scan ap bx tx) \<le> 0" by (simp add: set_range8)
  then have "fst (argmax_scan (\<lambda>tx. fst (row_scan ap bx tx)) range8 (0, 0)) = 0"
    using argmax_scan_spec[OF range8_sorted, where a = "\<lambda>tx. fst (row_scan ap bx tx)" and cm = 0 and ci = 0]
    by (auto split: prod.splits)
  then show ?thesis by (auto simp: select_action_def Let_def split: prod.splits)
qed

lemma select_action_some:
  assumes "\<exists>tx\<in>{0..7}. \<exists>ty\<in>{0..7}. ap (bx, tx, ty) > 0"
  obtains r c where "select_action ap bx = (r, c)" "r \<in> {0..7}" "c \<in> {0..7}"
    "ap (bx, r, c) > 0"
    "\<forall>tx\<in>{0..7}. \<forall>ty\<in>{0..7}. ap (bx, tx, ty) \<le> ap (bx, r, c)"
    "\<forall>tx\<in>{0..7}. \<forall>ty\<in>{0..7}. tx < r \<or> (tx = r \<and> ty < c) \<longrightarrow> ap (bx, tx, ty) < ap (bx, r, c)"
proof -
  let ?rm = "\<lambda>tx. fst (row_scan ap bx tx)" and ?ri = "\<lambda>tx. snd (row_scan ap bx tx)"
  obtain M r where s2: "argmax_scan ?rm range8 (0, 0) = (M, r)"
    by (cases "argmax_scan ?rm range8 (0, 0)")
  note P2 = argmax_scan_spec[OF range8_sorted, where a = ?rm and cm = 0 and ci = 0, unfolded s2 set_range8, simplified]
  have rows: "0 \<le> ?rm tx" "\<forall>ty\<in>{0..7}. ap (bx, tx, ty) \<le> ?rm tx" for tx
    using row_scan_spec[of ap bx tx] by (auto split: prod.splits)
  from assms obtain tx0 ty0 where t0: "tx0 \<in> {0..7}" "ty0 \<in> {0..7}" "ap (bx, tx0, ty0) > 0" by blast
  then have "?rm tx0 > 0" using rows(2)[of tx0] by force
  then have ex: "\<exists>tx\<in>{0..7}. ?rm tx > 0" using t0 by blast
  then have r: "r \<in> {0..7}" "?rm r = M" "\<forall>tx\<in>{0..7}. tx < r \<longrightarrow> ?rm tx < M"
    and le: "\<forall>tx\<in>{0..7}. ?rm tx \<le> M" using P2 by auto
  have Mpos: "M > 0" using ex le by force
  have "\<exists>ty\<in>{0..7}. ap (bx, r, ty) > 0"
  proof (rule ccontr)
    assume "\<not> ?thesis"
    then have "\<forall>ty\<in>{0..7}. ap (bx, r, ty) \<le> 0" by force
    then have "?rm r = 0" using row_scan_spec[of ap bx r] by (auto split: prod.splits)
    then show False using r(2) Mpos by simp
  qed
  then have c: "?ri r \<in> {0..7}" "ap (bx, r, ?ri r) = M" "\<forall>ty\<in>{0..7}. ty < ?ri r \<longrightarrow> ap (bx, r, ty) < M"
    using row_scan_spec[of ap bx r] r(2) by (auto split: prod.splits)
  have sel: "select_action ap bx = (r, ?ri r)"
    using s2 Mpos by (simp add: select_action_def Let_def)
  have all: "\<forall>tx\<in>{0..7}. \<forall>ty\<in>{0..7}. ap (bx, tx, ty) \<le> ap (bx, r, ?ri r)"
  proof (intro ballI)
    fix tx ty :: int assume t: "tx \<in> {0..7}" "ty \<in> {0..7}"
    have "ap (bx, tx, ty) \<le> ?rm tx" using rows(2) t(2) by blast
    moreover have "?rm tx \<le> M" using le t(1) by blast
    ultimately show "ap (bx, tx, ty) \<le> ap (bx, r, ?ri r)" using c(2) by simp
  qed
  have before: "\<forall>tx\<in>{0..7}. \<forall>ty\<in>{0..7}. tx < r \<or> (tx = r \<and> ty < ?ri r) \<longrightarrow> ap (bx, tx, ty) < ap (bx, r, ?ri r)"
  proof (intro ballI impI)
    fix tx ty assume t: "tx \<in> {0..7}" "ty \<in> {0..7}" "tx < r \<or> (tx = r \<and> ty < ?ri r)"
    from t(3) show "ap (bx, tx, ty) < ap (bx, r, ?ri r)"
    proof
      assume "tx < r"
      then have "?rm tx < M" using r(3) t(1) by blast
      moreover have "ap (bx, tx, ty) \<le> ?rm tx" using rows(2) t(2) by blast
      ultimately show ?thesis using c(2) by simp
    next
      assume "tx = r \<and> ty < ?ri r"
      then show ?thesis using c t(2) by simp
    qed
  qed
  show ?thesis using that[OF sel r(1) c(1) _ all before] c(2) Mpos by simp
qed


text \<open>
  C4. On a grid of non-negative scores, phase 1 leaves for every row its maximum and
  the first column holding it; phase 2 returns \<open>(-1, -1)\<close> when no score is
  positive, and otherwise the cell of the largest score of the grid that comes first
  in row-major order: every cell before it in its row, and every cell of an earlier
  row, holds a strictly smaller score.
\<close>

theorem select_action_row_major:
  assumes "\<forall>tx\<in>{0..7}. \<forall>ty\<in>{0..7}. 0 \<le> ap (bx, tx, ty)"
  shows "(\<forall>tx\<in>{0..7}. case row_scan ap bx tx of (m, c) \<Rightarrow>
            c \<in> {0..7} \<and> ap (bx, tx, c) = m
            \<and> (\<forall>ty\<in>{0..7}. ap (bx, tx, ty) \<le> m)
            \<and> (\<forall>ty\<in>{0..7}. ty < c \<longrightarrow> ap (bx, tx, ty) < m))
    \<and> (case select_action ap bx of (r, c) \<Rightarrow>
          if \<forall>tx\<in>{0..7}. \<forall>ty\<in>{0..7}. ap (bx, tx, ty) \<le> 0 then r = -1 \<and> c = -1
          else r \<in> {0..7} \<and> c \<in> {0..7} \<and> 0 < ap (bx, r, c)
               \<and> c = snd (row_scan ap bx r)
               \<and> (\<forall>tx\<in>{0..7}. \<forall>ty\<in>{0..7}. ap (bx, tx, ty) \<le> ap (bx, r, c))
               \<and> (\<forall>tx\<in>{0..7}. \<forall>ty\<in>{0..7}.
                     tx < r \<or> (tx = r \<and> ty < c) \<longrightarrow> ap (bx, tx, ty) < ap (bx, r, c)))"
proof (intro conjI ballI)
  fix tx :: int assume tx: "tx \<in> {0..7}"
  obtain m c where mc: "row_scan ap bx tx = (m, c)" by (cases "row_scan ap bx tx")
  note R = row_scan_spec[of ap bx tx, unfolded mc, simplified]
  have "c \<in> {0..7} \<and> ap (bx, tx, c) = m \<and> (\<forall>ty\<in>{0..7}. ty < c \<longrightarrow> ap (bx, tx, ty) < m)"
  proof (cases "\<exists>ty\<in>{0..7}. ap (bx, tx, ty) > 0")
    case True
    then show ?thesis using R by auto
  next
    case False
    then have "\<forall>ty\<in>{0..7}. ap (bx, tx, ty) \<le> 0" by force
    then have "m = 0" "c = 0" using R by blast+
    moreover have "ap (bx, tx, 0) = 0" using False assms tx by force
    ultimately show ?thesis by simp
  qed
  then show "case row_scan ap bx tx of (m, c) \<Rightarrow>
            c \<in> {0..7} \<and> ap (bx, tx, c) = m
            \<and> (\<forall>ty\<in>{0..7}. ap (bx, tx, ty) \<le> m)
            \<and> (\<forall>ty\<in>{0..7}. ty < c \<longrightarrow> ap (bx, tx, ty) < m)"
    unfolding mc using R by simp
next
  show "case select_action ap bx of (r, c) \<Rightarrow>
          if \<forall>tx\<in>{0..7}. \<forall>ty\<in>{0..7}. ap (bx, tx, ty) \<le> 0 then r = -1 \<and> c = -1
          else r \<in> {0..7} \<and> c \<in> {0..7} \<and> 0 < ap (bx, r, c)
               \<and> c = snd (row_scan ap bx r)
               \<and> (\<forall>tx\<in>{0..7}. \<forall>ty\<in>{0..7}. ap (bx, tx, ty) \<le> ap (bx, r, c))
               \<and> (\<forall>tx\<in>{0..7}. \<forall>ty\<in>{0..7}.
                     tx < r \<or> (tx = r \<and> ty < c) \<longrightarrow> ap (bx, tx, ty) < ap (bx, r, c))"
  proof (cases "\<forall>tx\<in>{0..7}. \<forall>ty\<in>{0..7}. ap (bx, tx, ty) \<le> 0")
    case True
    then show ?thesis using select_action_none[OF True] by simp
  next
    case False
    then have ex: "\<exists>tx\<in>{0..7}. \<exists>ty\<in>{0..7}. ap (bx, tx, ty) > 0" by force
    from select_action_some[OF ex] obtain r c where rc: "select_action ap bx = (r, c)"
      "r \<in> {0..7}" "c \<in> {0..7}" "ap (bx, r, c) > 0"
      "\<forall>tx\<in>{0..7}. \<forall>ty\<in>{0..7}. ap (bx, tx, ty) \<le> ap (bx, r, c)"
      "\<forall>tx\<in>{0..7}. \<forall>ty\<in>{0..7}. tx < r \<or> (tx = r \<and> ty < c) \<longrightarrow> ap (bx, tx, ty) < ap (bx, r, c)"
      by blast
    have "c = snd (row_scan ap bx r)"
      using rc(1,2) by (auto simp: select_action_def Let_def split: prod.splits if_splits)
    then show ?thesis using False rc by simp
  qed
qed

theorem select_action_row_major_witness:
  "tie_grid (0, 2, 3) = tie_grid (0, 2, 5) \<and> tie_grid (0, 2, 3) = tie_grid (0, 4, 1)
   \<and> select_action tie_grid 0 = (2, 3)"
proof -
  have h: "\<forall>tx\<in>{0..7}. \<forall>ty\<in>{0..7}. 0 \<le> tie_grid (0, tx, ty)"
    by (simp add: tie_grid_def)
  obtain r c where rc: "select_action tie_grid 0 = (r, c)" by (cases "select_action tie_grid 0")
  have pos: "\<not> (\<forall>tx\<in>{0..7}. \<forall>ty\<in>{0..7}. tie_grid (0, tx, ty) \<le> 0)"
  proof
    assume "\<forall>tx\<in>{0..7}. \<forall>ty\<in>{0..7}. tie_grid (0, tx, ty) \<le> 0"
    then have "tie_grid (0, 2, 3) \<le> 0" by simp
    then show False by (simp add: tie_grid_def)
  qed
  from select_action_row_major[OF h] rc pos
  have f: "0 < tie_grid (0, r, c)"
    "\<forall>tx\<in>{0..7}. \<forall>ty\<in>{0..7}. tx < r \<or> (tx = r \<and> ty < c) \<longrightarrow> tie_grid (0, tx, ty) < tie_grid (0, r, c)"
    by auto
  from f(1) have "(r, c) = (2, 3) \<or> (r, c) = (2, 5) \<or> (r, c) = (4, 1)"
    by (auto simp: tie_grid_def split: if_splits)
  moreover have "\<not> tie_grid (0, 2, 3) < tie_grid (0, r, c)"
    by (auto simp: tie_grid_def)
  ultimately have "(r, c) = (2, 3)" using f(2) by force
  then show ?thesis using rc by (simp add: tie_grid_def)
qed

section \<open>What \<open>find_actions\<close> writes\<close>

lemma RAYS_nth:
  assumes "i \<in> {0..7}"
  shows "RAYS ! nat i \<in> set RAYS"
proof -
  have "length RAYS = 8" by (simp add: RAYS_def)
  then have "nat i < length RAYS" using assms by auto
  then show ?thesis by (rule nth_mem)
qed

lemma RAYS_set_nth: "set RAYS = (\<lambda>i. RAYS ! nat i) ` {0..7}"
proof
  show "(\<lambda>i. RAYS ! nat i) ` {0..7} \<subseteq> set RAYS" using RAYS_nth by auto
  show "set RAYS \<subseteq> (\<lambda>i. RAYS ! nat i) ` {0..7}"
  proof
    fix r assume "r \<in> set RAYS"
    then obtain n where n: "n < length RAYS" "RAYS ! n = r" by (auto simp: in_set_conv_nth)
    moreover have "length RAYS = 8" by (simp add: RAYS_def)
    ultimately have "int n \<in> {0..7}" by simp
    moreover have "RAYS ! nat (int n) = r" using n(2) by simp
    ultimately show "r \<in> (\<lambda>i. RAYS ! nat i) ` {0..7}" by blast
  qed
qed

lemma any_hit_eq:
  assumes "set is \<subseteq> {0..7}"
  shows "any_hit b tx ty p is
         = Some (Inr (\<exists>i\<in>set is. \<exists>k\<in>{1..7}. ray_hit b tx ty (RAYS ! nat i) p k))"
  using assms
proof (induction "is")
  case Nil
  then show ?case by simp
next
  case (Cons i "is")
  then have "RAYS ! nat i \<in> set RAYS" using RAYS_nth by simp
  from ray_cast_eq[OF this, of b tx ty p] Cons show ?case by simp
qed

lemma any_hit_range8:
  "any_hit b tx ty p range8 = Some (Inr (\<exists>ray\<in>set RAYS. \<exists>k\<in>{1..7}. ray_hit b tx ty ray p k))"
proof -
  have "set range8 \<subseteq> {0..7}" by (simp add: set_range8)
  from any_hit_eq[OF this, of b tx ty p] show ?thesis
    unfolding set_range8 RAYS_set_nth by simp
qed

lemma find_actions_thread_eq:
  assumes "on_board (tx, ty)"
  shows "find_actions_thread rng bs p (bx, tx, ty) ap
         = Some (Inr (ap((bx, tx, ty) := thread_score rng bs p (bx, tx, ty))))"
  using assms any_hit_range8[of "bs bx" tx ty p] by (simp add: rd_def)

lemma for_each_upd:
  assumes "\<And>t s. t \<in> set ts \<Longrightarrow> body t s = Some (Inr (s(t := g t)))"
  shows "for_each ts body s = Some (Inr (\<lambda>t. if t \<in> set ts then g t else s t))"
  using assms
proof (induction ts arbitrary: s)
  case Nil
  then show ?case by simp
next
  case (Cons t ts)
  have b: "body t s = Some (Inr (s(t := g t)))"
    by (rule Cons.prems) simp
  have "for_each (t # ts) body s = for_each ts body (s(t := g t))"
    by (simp add: b)
  also have "\<dots> = Some (Inr (\<lambda>u. if u \<in> set ts then g u else (s(t := g t)) u))"
    by (rule Cons.IH) (rule Cons.prems, simp)
  also have "(\<lambda>u. if u \<in> set ts then g u else (s(t := g t)) u)
             = (\<lambda>u. if u \<in> set (t # ts) then g u else s u)"
    by auto
  finally show ?case .
qed

lemma set_threads:
  "set threads = {(bx, tx, ty). bx < N_GAMES \<and> tx \<in> {0..7} \<and> ty \<in> {0..7}}"
  by (force simp: threads_def set_range8)

lemma find_actions_eq:
  "find_actions rng bs p ap
   = Some (Inr (\<lambda>t. if t \<in> set threads then thread_score rng bs p t else ap t))"
  unfolding find_actions_def
proof (rule for_each_upd)
  fix t s assume "t \<in> set threads"
  then obtain bx tx ty where t: "t = (bx, tx, ty)" "on_board (tx, ty)"
    by (auto simp: set_threads on_board_def)
  then show "find_actions_thread rng bs p t s = Some (Inr (s(t := thread_score rng bs p t)))"
    using find_actions_thread_eq by simp
qed

lemma capture_line_hit:
  assumes "valid_board b" "p = 1 \<or> p = 2"
  shows "(\<exists>k\<in>{1..7}. ray_hit b x y ray p k) \<longleftrightarrow> capture_line b x y ray p"
  unfolding capture_line_def using ray_hit_line_of[OF assms] by auto

lemma thread_score_valid:
  assumes "valid_board (bs bx)" "p = 1 \<or> p = 2"
  shows "thread_score rng bs p (bx, tx, ty) = score rng bs p (bx, tx, ty)"
  using capture_line_hit[OF assms] by simp

text \<open>
  C2. The kernel does not keep its scores positive on the legal moves. On an empty
  cell with a capturing line it writes the value the generator returns, and the
  generator returns values from 0 on: when the draw is 0, the launch on the opening
  position writes 0 on the legal move \<open>(2, 3)\<close> of player 1, over the score that was
  there. Nor has each cell a generator state of its own: the threads of the cells
  \<open>(2, 3)\<close> and \<open>(2, 4)\<close> advance the same one.
\<close>

theorem find_actions_zero_draw:
  "legal_move initial_board 1 2 3
   \<and> find_actions zero_grid (boards (init_state initial_board)) 1 one_move_grid = Some (Inr zero_grid)
   \<and> tid (0, 2, 3) = tid (0, 2, 4)"
proof -
  have "line_of initial_board 2 3 (1, 0) 1 1"
    by (simp add: line_of_def ray_cell_def on_board_def initial_board_def)
  then have "capture_line initial_board 2 3 (1, 0) 1"
    unfolding capture_line_def by (intro bexI[of _ 1]) simp_all
  moreover have "(1, 0) \<in> set RAYS" by (simp add: RAYS_def)
  ultimately have l: "legal_move initial_board 1 2 3"
    by (auto simp: legal_move_def initial_board_def)
  have z: "thread_score zero_grid bs p t = 0" for bs p t
    by (cases t) (simp add: zero_grid_def)
  have "(0, 2, 3) \<in> set threads" by (simp add: set_threads N_GAMES_def)
  then have "(\<lambda>t. if t \<in> set threads then 0 else one_move_grid t) = zero_grid"
    by (auto simp: fun_eq_iff one_move_grid_def zero_grid_def)
  then have f: "find_actions zero_grid (boards (init_state initial_board)) 1 one_move_grid
                = Some (Inr zero_grid)"
    unfolding find_actions_eq z by simp
  have "tid (0, 2, 3) = tid (0, 2, 4)" by (simp add: tid_def)
  then show ?thesis using l f by simp
qed

section \<open>What \<open>select_and_step\<close> does to a board\<close>

lemma ray_cell_0: "ray_cell x y r 0 = (x, y)"
  by (simp add: ray_cell_def)

lemma ray_cell_Suc: "ray_cell (x + fst r) (y + snd r) r j = ray_cell x y r (Suc j)"
  by (simp add: ray_cell_def algebra_simps)

lemma ray_cell_eq_0:
  assumes "ray_cell x y r (Suc j) = ray_cell x y r 0"
  shows "ray_cell x y r i = (x, y)"
proof -
  have "(1 + int j) * fst r = 0" "(1 + int j) * snd r = 0"
    using assms by (simp_all add: ray_cell_def)
  then have "fst r = 0" "snd r = 0" by auto
  then show ?thesis by (simp add: ray_cell_def)
qed

lemma flip_loop_run:
  assumes "\<forall>j<n. on_board (ray_cell x y r j) \<and> bs bx (ray_cell x y r j) = opp"
    and "on_board (ray_cell x y r n)" and "bs bx (ray_cell x y r n) \<noteq> opp" and "p \<noteq> opp"
  shows "flip_loop bs bx x y r p opp
         = Some (Inr (bs(bx := (\<lambda>c. if \<exists>j<n. c = ray_cell x y r j then p else bs bx c))))"
  using assms
proof (induction n arbitrary: x y bs)
  case 0
  have "bs(bx := (\<lambda>c. bs bx c)) = bs" by auto
  then show ?case using 0 by (subst flip_loop.simps) (simp add: rd_def ray_cell_0)
next
  case (Suc n)
  let ?c = "ray_cell x y r" and ?c' = "ray_cell (x + fst r) (y + snd r) r"
  let ?bs = "bs(bx := (bs bx)((x, y) := p))"
  have c0: "on_board (x, y)" "bs bx (x, y) = opp"
    using Suc.prems(1) ray_cell_0[of x y r] by (metis zero_less_Suc)+
  have ne: "?c (Suc j) \<noteq> (x, y)" for j
  proof
    assume "?c (Suc j) = (x, y)"
    then have "?c (Suc n) = (x, y)" using ray_cell_eq_0[of x y r j "Suc n"] by (simp add: ray_cell_0)
    then show False using Suc.prems(3) c0(2) by simp
  qed
  have 1: "\<forall>j<n. on_board (?c' j) \<and> ?bs bx (?c' j) = opp"
    using Suc.prems(1) ne by (simp add: ray_cell_Suc)
  have 2: "on_board (?c' n)" using Suc.prems(2) by (simp add: ray_cell_Suc)
  have 3: "?bs bx (?c' n) \<noteq> opp" using Suc.prems(3) ne by (simp add: ray_cell_Suc)
  have "flip_loop bs bx x y r p opp = flip_loop ?bs bx (x + fst r) (y + snd r) r p opp"
    using c0 by (subst flip_loop.simps) (simp add: rd_def wr_def)
  also have "\<dots> = Some (Inr (?bs(bx := (\<lambda>c. if \<exists>j<n. c = ?c' j then p else ?bs bx c))))"
    by (rule Suc.IH[where bs = ?bs and x = "x + fst r" and y = "y + snd r", OF 1 2 3 Suc.prems(4)])
  also have "?bs(bx := (\<lambda>c. if \<exists>j<n. c = ?c' j then p else ?bs bx c))
             = bs(bx := (\<lambda>c. if \<exists>j<Suc n. c = ?c j then p else bs bx c))"
  proof -
    have e: "(\<exists>j<Suc n. c = ?c j) \<longleftrightarrow> c = (x, y) \<or> (\<exists>j<n. c = ?c' j)" for c
      unfolding ray_cell_Suc
      by (metis less_Suc_eq_0_disj ray_cell_0 Suc_less_eq)
    have "(if \<exists>j<n. c = ?c' j then p else ?bs bx c)
               = (if \<exists>j<Suc n. c = ?c j then p else bs bx c)" for c
      unfolding e by auto
    then have "(\<lambda>c. if \<exists>j<n. c = ?c' j then p else ?bs bx c)
               = (\<lambda>c. if \<exists>j<Suc n. c = ?c j then p else bs bx c)"
      by (rule ext)
    then show ?thesis by simp
  qed
  finally show ?case .
qed

lemma rays_disjoint:
  assumes "r \<in> set RAYS" "r' \<in> set RAYS" "1 \<le> j" "1 \<le> j'"
    and "ray_cell x y r j = ray_cell x y r' j'"
  shows "r = r'"
  using assms by (auto simp: RAYS_def ray_cell_def)

lemma ray_not_origin:
  assumes "r \<in> set RAYS" "1 \<le> j"
  shows "ray_cell x y r j \<noteq> (x, y)"
  using assms by (auto simp: RAYS_def ray_cell_def)

lemma RAYS_distinct: "distinct RAYS"
  by (simp add: RAYS_def)

lemma RAYS_nth_inj:
  assumes "i \<in> {0..7}" "i' \<in> {0..7}" "RAYS ! nat i = RAYS ! nat i'"
  shows "i = i'"
proof -
  have l: "length RAYS = 8" by (simp add: RAYS_def)
  have "nat i < length RAYS" "nat i' < length RAYS" using assms(1,2) l by auto
  then have "nat i = nat i'" using assms(3) RAYS_distinct by (simp add: nth_eq_iff_index_eq)
  then show ?thesis using assms(1,2) by auto
qed


lemma flip_along_line:
  assumes l: "line_of (bs bx) x0 y0 r p k" and p: "p = 1 \<or> p = 2"
  shows "flip_loop bs bx (x0 + fst r) (y0 + snd r) r p (3 - p)
         = Some (Inr (bs(bx := (\<lambda>c. if \<exists>j\<in>{1..k}. c = ray_cell x0 y0 r j then p else bs bx c))))"
proof -
  let ?x = "x0 + fst r" and ?y = "y0 + snd r"
  have 1: "\<forall>j<k. on_board (ray_cell ?x ?y r j) \<and> bs bx (ray_cell ?x ?y r j) = 3 - p"
    using l unfolding line_of_def ray_cell_Suc by auto
  have 2: "on_board (ray_cell ?x ?y r k)" "bs bx (ray_cell ?x ?y r k) \<noteq> 3 - p"
    using l p unfolding line_of_def ray_cell_Suc by auto
  have 3: "p \<noteq> 3 - p" using p by auto
  have e: "(\<exists>j<k. c = ray_cell ?x ?y r j) \<longleftrightarrow> (\<exists>j\<in>{1..k}. c = ray_cell x0 y0 r j)" for c
  proof
    assume "\<exists>j<k. c = ray_cell ?x ?y r j"
    then obtain j where "j < k" "c = ray_cell x0 y0 r (Suc j)" unfolding ray_cell_Suc by blast
    then show "\<exists>j\<in>{1..k}. c = ray_cell x0 y0 r j" by (intro bexI[of _ "Suc j"]) auto
  next
    assume "\<exists>j\<in>{1..k}. c = ray_cell x0 y0 r j"
    then obtain j where j: "j \<in> {1..k}" "c = ray_cell x0 y0 r j" by blast
    then obtain j' where "j = Suc j'" by (cases j) auto
    then show "\<exists>j<k. c = ray_cell ?x ?y r j" using j unfolding ray_cell_Suc by (intro exI[of _ j']) auto
  qed
  show ?thesis using flip_loop_run[where bs = bs and bx = bx, OF 1 2 3] unfolding e .
qed

lemma flipped_along_line:
  assumes l: "line_of b x0 y0 r p k" and k: "k \<in> {1..7}" and p: "p = 1 \<or> p = 2"
  shows "flipped_along b x0 y0 r p c \<longleftrightarrow> (\<exists>j\<in>{1..k}. c = ray_cell x0 y0 r j)"
proof
  assume "flipped_along b x0 y0 r p c"
  then obtain k' where k': "line_of b x0 y0 r p k'" "\<exists>j\<in>{1..k'}. c = ray_cell x0 y0 r j"
    unfolding flipped_along_def by blast
  have "p \<noteq> 3 - p" using p by auto
  from line_of_unique[OF l k'(1) this] k'(2) show "\<exists>j\<in>{1..k}. c = ray_cell x0 y0 r j" by simp
next
  assume "\<exists>j\<in>{1..k}. c = ray_cell x0 y0 r j"
  then show "flipped_along b x0 y0 r p c" unfolding flipped_along_def using l k by blast
qed

lemma flipped_along_capture:
  assumes "flipped_along b x0 y0 r p c"
  shows "capture_line b x0 y0 r p"
  using assms unfolding flipped_along_def capture_line_def by blast

lemma step_thread_eq:
  assumes p: "p = 1 \<or> p = 2" and v: "valid_board (boards s bx)"
    and tx: "tx \<in> {0..7}" and o: "on_board (ax, ay)"
  shows "step_thread ax ay p bx tx s
         = Some (Inr (s\<lparr>boards := (boards s)(bx := (\<lambda>c.
                          if flipped_along (boards s bx) ax ay (RAYS ! nat tx) p c \<or> (tx = 0 \<and> c = (ax, ay))
                          then p else boards s bx c)),
                        player_status := (if tx = 0 then (player_status s)(bx := (player_status s bx)(p - 1 := 0))
                                          else player_status s)\<rparr>))"
proof -
  let ?r = "RAYS ! nat tx" and ?b = "boards s bx"
  have r: "?r \<in> set RAYS" using RAYS_nth[OF tx] .
  have rc: "ray_cast ?b ax ay ?r p = Some (Inr (capture_line ?b ax ay ?r p))"
    using ray_cast_valid[OF v p r] .
  let ?F = "\<lambda>c. if flipped_along ?b ax ay ?r p c then p else ?b c"
  have fl: "(if capture_line ?b ax ay ?r p
             then flip_loop (boards s) bx (ax + fst ?r) (ay + snd ?r) ?r p (3 - p)
             else Some (Inr (boards s))) = Some (Inr ((boards s)(bx := ?F)))"
  proof (cases "capture_line ?b ax ay ?r p")
    case True
    then obtain k where k: "k \<in> {1..7}" "line_of ?b ax ay ?r p k" unfolding capture_line_def by blast
    have "?F = (\<lambda>c. if \<exists>j\<in>{1..k}. c = ray_cell ax ay ?r j then p else ?b c)"
      using flipped_along_line[OF k(2) k(1) p] by auto
    then show ?thesis using True flip_along_line[where bs = "boards s" and bx = bx, OF k(2) p] by simp
  next
    case False
    then have "\<not> flipped_along ?b ax ay ?r p c" for c using flipped_along_capture by blast
    then have "?F = ?b" by auto
    then show ?thesis using False by simp
  qed
  have st: "set_status (player_status s) bx (p - 1) 0
            = Inr ((player_status s)(bx := (player_status s bx)(p - 1 := 0)))"
    using p by (auto simp: set_status_def)
  have e1: "step_thread ax ay p bx tx s
        = (if tx = 0 then
             (case wr ((boards s)(bx := ?F)) bx ax ay p of
                Inl e \<Rightarrow> Some (Inl e)
              | Inr bs' \<Rightarrow>
                  (case set_status (player_status s) bx (p - 1) 0 of
                     Inl e \<Rightarrow> Some (Inl e)
                   | Inr ps \<Rightarrow> Some (Inr (s\<lparr>boards := bs', player_status := ps\<rparr>))))
           else Some (Inr (s\<lparr>boards := (boards s)(bx := ?F)\<rparr>)))"
    by (simp only: step_thread_def Let_def rc option.case sum.case fl)
  show ?thesis
  proof (cases "tx = 0")
    case True
    have "((boards s)(bx := ?F))(bx := (((boards s)(bx := ?F)) bx)((ax, ay) := p))
          = (boards s)(bx := (\<lambda>c. if flipped_along ?b ax ay ?r p c \<or> (tx = 0 \<and> c = (ax, ay)) then p else ?b c))"
      using True by (auto simp: fun_eq_iff)
    then have w: "wr ((boards s)(bx := ?F)) bx ax ay p
          = Inr ((boards s)(bx := (\<lambda>c. if flipped_along ?b ax ay ?r p c \<or> (tx = 0 \<and> c = (ax, ay)) then p else ?b c)))"
      using o by (simp only: wr_def if_True)
    show ?thesis
      unfolding e1 st w using True by simp
  next
    case False
    have "?F = (\<lambda>c. if flipped_along ?b ax ay ?r p c \<or> (tx = 0 \<and> c = (ax, ay)) then p else ?b c)"
      using False by auto
    then show ?thesis
      unfolding e1 using False by simp
  qed
qed


lemma line_of_cong:
  assumes "\<forall>j\<ge>1. b' (ray_cell x0 y0 r j) = b (ray_cell x0 y0 r j)"
  shows "line_of b' x0 y0 r p k = line_of b x0 y0 r p k"
  unfolding line_of_def using assms by auto

lemma flipped_along_cong:
  assumes "\<forall>j\<ge>1. b' (ray_cell x0 y0 r j) = b (ray_cell x0 y0 r j)"
  shows "flipped_along b' x0 y0 r p c = flipped_along b x0 y0 r p c"
  unfolding flipped_along_def line_of_cong[OF assms] ..

lemma flipped_along_cell:
  assumes "flipped_along b x0 y0 r p c"
  obtains j where "1 \<le> j" "c = ray_cell x0 y0 r j"
  using assms unfolding flipped_along_def by auto

lemma valid_board_upd:
  assumes "valid_board b" "p = 1 \<or> p = 2"
  shows "valid_board (\<lambda>c. if P c then p else b c)"
  using assms unfolding valid_board_def by auto

lemma threads_run:
  assumes p: "p = 1 \<or> p = 2" and o: "on_board (ax, ay)"
    and "set is \<subseteq> {0..7}" and "distinct is"
    and "valid_board (boards s bx)"
    and "\<forall>i\<in>set is. \<forall>j\<ge>1. boards s bx (ray_cell ax ay (RAYS ! nat i) j) = b0 (ray_cell ax ay (RAYS ! nat i) j)"
  shows "for_each is (step_thread ax ay p bx) s
         = Some (Inr (s\<lparr>boards := (boards s)(bx := (\<lambda>c.
                          if (\<exists>i\<in>set is. flipped_along b0 ax ay (RAYS ! nat i) p c) \<or> (0 \<in> set is \<and> c = (ax, ay))
                          then p else boards s bx c)),
                        player_status := (if 0 \<in> set is then (player_status s)(bx := (player_status s bx)(p - 1 := 0))
                                          else player_status s)\<rparr>))"
  using assms(3-)
proof (induction "is" arbitrary: s)
  case Nil
  have "(boards s)(bx := (\<lambda>c. boards s bx c)) = boards s" by auto
  then show ?case by simp
next
  case (Cons i "is")
  let ?r = "RAYS ! nat i" and ?b = "boards s bx"
  have i: "i \<in> {0..7}" and iss: "set is \<subseteq> {0..7}" "distinct is" "i \<notin> set is"
    using Cons.prems by auto
  have r: "?r \<in> set RAYS" using RAYS_nth[OF i] .
  have fa: "flipped_along ?b ax ay ?r p c = flipped_along b0 ax ay ?r p c" for c
    by (rule flipped_along_cong) (use Cons.prems(4) in simp)
  let ?B1 = "\<lambda>c. if flipped_along b0 ax ay ?r p c \<or> (i = 0 \<and> c = (ax, ay)) then p else ?b c"
  let ?s1 = "s\<lparr>boards := (boards s)(bx := ?B1),
               player_status := (if i = 0 then (player_status s)(bx := (player_status s bx)(p - 1 := 0))
                                 else player_status s)\<rparr>"
  have st: "step_thread ax ay p bx i s = Some (Inr ?s1)"
    using step_thread_eq[OF p Cons.prems(3) i o] unfolding fa .
  have v1: "valid_board (boards ?s1 bx)"
    using valid_board_upd[OF Cons.prems(3) p] by simp
  have ag: "\<forall>i'\<in>set is. \<forall>j\<ge>1. boards ?s1 bx (ray_cell ax ay (RAYS ! nat i') j)
                                   = b0 (ray_cell ax ay (RAYS ! nat i') j)"
  proof (intro ballI allI impI)
    fix i' j assume i': "i' \<in> set is" and j: "1 \<le> (j::nat)"
    let ?c = "ray_cell ax ay (RAYS ! nat i') j"
    have i'8: "i' \<in> {0..7}" using i' iss(1) by auto
    have r': "RAYS ! nat i' \<in> set RAYS" using RAYS_nth[OF i'8] .
    have ne: "RAYS ! nat i' \<noteq> ?r" using RAYS_nth_inj[OF i'8 i] i' iss(3) by auto
    have "\<not> flipped_along b0 ax ay ?r p ?c"
    proof
      assume "flipped_along b0 ax ay ?r p ?c"
      then obtain j' where "1 \<le> j'" "?c = ray_cell ax ay ?r j'" by (rule flipped_along_cell)
      from rays_disjoint[OF r' r j this] ne show False by simp
    qed
    moreover have "?c \<noteq> (ax, ay)" using ray_not_origin[OF r' j] .
    ultimately have "boards ?s1 bx ?c = ?b ?c" by simp
    then show "boards ?s1 bx ?c = b0 ?c" using Cons.prems(4) i' j by simp
  qed
  have e1: "for_each (i # is) (step_thread ax ay p bx) s = for_each is (step_thread ax ay p bx) ?s1"
    by (simp add: st)
  note e2 = Cons.IH[OF iss(1,2) v1 ag]
  have e3: "?s1\<lparr>boards := (boards ?s1)(bx := (\<lambda>c.
                          if (\<exists>i\<in>set is. flipped_along b0 ax ay (RAYS ! nat i) p c) \<or> (0 \<in> set is \<and> c = (ax, ay))
                          then p else boards ?s1 bx c)),
                        player_status := (if 0 \<in> set is then (player_status ?s1)(bx := (player_status ?s1 bx)(p - 1 := 0))
                                          else player_status ?s1)\<rparr>
      = s\<lparr>boards := (boards s)(bx := (\<lambda>c.
                          if (\<exists>i\<in>set (i # is). flipped_along b0 ax ay (RAYS ! nat i) p c) \<or> (0 \<in> set (i # is) \<and> c = (ax, ay))
                          then p else boards s bx c)),
                        player_status := (if 0 \<in> set (i # is) then (player_status s)(bx := (player_status s bx)(p - 1 := 0))
                                          else player_status s)\<rparr>"
  proof -
    have F: "(\<lambda>c. if (\<exists>i\<in>set is. flipped_along b0 ax ay (RAYS ! nat i) p c) \<or> (0 \<in> set is \<and> c = (ax, ay))
               then p else ?B1 c)
        = (\<lambda>c. if (\<exists>i\<in>set (i # is). flipped_along b0 ax ay (RAYS ! nat i) p c) \<or> (0 \<in> set (i # is) \<and> c = (ax, ay))
               then p else ?b c)"
      by (rule ext) auto
    have b1: "boards ?s1 bx = ?B1" by simp
    have X: "(boards ?s1)(bx := (\<lambda>c.
                if (\<exists>i\<in>set is. flipped_along b0 ax ay (RAYS ! nat i) p c) \<or> (0 \<in> set is \<and> c = (ax, ay))
                then p else boards ?s1 bx c))
          = (boards s)(bx := (\<lambda>c.
                if (\<exists>i\<in>set (i # is). flipped_along b0 ax ay (RAYS ! nat i) p c) \<or> (0 \<in> set (i # is) \<and> c = (ax, ay))
                then p else ?b c))"
      unfolding b1 F by simp
    have Y: "(if 0 \<in> set is then (player_status ?s1)(bx := (player_status ?s1 bx)(p - 1 := 0))
              else player_status ?s1)
          = (if 0 \<in> set (i # is) then (player_status s)(bx := (player_status s bx)(p - 1 := 0))
             else player_status s)"
      by auto
    have Z: "?s1\<lparr>boards := bb, player_status := pp\<rparr> = s\<lparr>boards := bb, player_status := pp\<rparr>" for bb pp
      by simp
    show ?thesis unfolding X Y by (rule Z)
  qed
  show ?case unfolding e1 e2 e3 ..
qed

lemma select_action_on_board:
  assumes "select_action ap bx = (ax, ay)" "ax \<noteq> -1"
  shows "on_board (ax, ay) \<and> 0 < ap (bx, ax, ay)"
proof -
  have "\<exists>tx\<in>{0..7}. \<exists>ty\<in>{0..7}. ap (bx, tx, ty) > 0"
  proof (rule ccontr)
    assume "\<not> ?thesis"
    then have "\<forall>tx\<in>{0..7}. \<forall>ty\<in>{0..7}. ap (bx, tx, ty) \<le> 0" by force
    from select_action_none[OF this] assms show False by simp
  qed
  then show ?thesis
  proof (rule select_action_some)
    fix r c assume "select_action ap bx = (r, c)" "r \<in> {0..7}" "c \<in> {0..7}" "ap (bx, r, c) > 0"
    then show ?thesis using assms(1) by (simp add: on_board_def)
  qed
qed

lemma block_play:
  assumes p: "p = 1 \<or> p = 2" and v: "valid_board (boards s bx)"
    and sel: "select_action ap bx = (ax, ay)" "ax \<noteq> -1"
  shows "select_and_step_block ap p bx s
         = Some (Inr (s\<lparr>boards := (boards s)(bx := apply_move (boards s bx) ax ay p),
                        player_status := (player_status s)(bx := (player_status s bx)(p - 1 := 0))\<rparr>))"
proof -
  have o: "on_board (ax, ay)" using select_action_on_board[OF sel] by simp
  have 1: "set range8 \<subseteq> {0..7}" "distinct range8" "0 \<in> set range8"
    by (simp_all add: range8_def)
  have "(\<lambda>c. if (\<exists>i\<in>set range8. flipped_along (boards s bx) ax ay (RAYS ! nat i) p c)
                 \<or> (0 \<in> set range8 \<and> c = (ax, ay)) then p else boards s bx c)
        = apply_move (boards s bx) ax ay p"
    unfolding apply_move_def flipped_def RAYS_set_nth set_range8 by (rule ext) auto
  then have T: "for_each range8 (step_thread ax ay p bx) s
        = Some (Inr (s\<lparr>boards := (boards s)(bx := apply_move (boards s bx) ax ay p),
                        player_status := (player_status s)(bx := (player_status s bx)(p - 1 := 0))\<rparr>))"
    using threads_run[OF p o 1(1,2) v, of "boards s bx"] 1(3) by simp
  have "select_and_step_block ap p bx s = for_each range8 (step_thread ax ay p bx) s"
    using sel by (simp add: select_and_step_block_def)
  then show ?thesis using T by simp
qed

lemma block_pass:
  assumes p: "p = 1 \<or> p = 2" and sel: "select_action ap bx = (-1, ay)"
  shows "select_and_step_block ap p bx s
         = Some (Inr (s\<lparr>player_status := (player_status s)(bx := (player_status s bx)(p - 1 := 1))\<rparr>))"
  using assms by (auto simp: select_and_step_block_def set_status_def)

lemma block_eq:
  assumes p: "p = 1 \<or> p = 2" and v: "valid_board (boards s bx)"
  shows "select_and_step_block ap p bx s
         = Some (Inr (s\<lparr>boards := (boards s)(bx := move_board ap p bx (boards s bx)),
                        player_status := (player_status s)(bx := (player_status s bx)(p - 1 := move_flag ap bx))\<rparr>))"
proof -
  obtain ax ay where sel: "select_action ap bx = (ax, ay)" by (cases "select_action ap bx")
  show ?thesis
  proof (cases "ax = -1")
    case True
    have "select_action ap bx = (-1, ay)" using sel True by simp
    from block_pass[OF p this, of s] show ?thesis
      using sel True by (simp add: move_board_def move_flag_def)
  next
    case False
    from block_play[OF p v sel False] show ?thesis
      using sel False by (simp add: move_board_def move_flag_def)
  qed
qed

lemma blocks_run:
  assumes p: "p = 1 \<or> p = 2" and "distinct bxs" and "\<forall>bx\<in>set bxs. valid_board (boards s bx)"
  shows "for_each bxs (select_and_step_block ap p) s
         = Some (Inr (s\<lparr>boards := (\<lambda>bx. if bx \<in> set bxs then move_board ap p bx (boards s bx) else boards s bx),
                        player_status := (\<lambda>bx. if bx \<in> set bxs then (player_status s bx)(p - 1 := move_flag ap bx)
                                                else player_status s bx)\<rparr>))"
  using assms(2-)
proof (induction bxs arbitrary: s)
  case Nil
  then show ?case by simp
next
  case (Cons bx bxs)
  let ?s1 = "s\<lparr>boards := (boards s)(bx := move_board ap p bx (boards s bx)),
               player_status := (player_status s)(bx := (player_status s bx)(p - 1 := move_flag ap bx))\<rparr>"
  have b: "select_and_step_block ap p bx s = Some (Inr ?s1)"
    by (rule block_eq[OF p]) (use Cons.prems in simp)
  have d: "distinct bxs" "bx \<notin> set bxs" using Cons.prems(1) by auto
  have v: "\<forall>g\<in>set bxs. valid_board (boards ?s1 g)" using Cons.prems(2) d(2) by auto
  have e1: "for_each (bx # bxs) (select_and_step_block ap p) s
            = for_each bxs (select_and_step_block ap p) ?s1"
    by (simp add: b)
  note e2 = Cons.IH[OF d(1) v]
  have X: "(\<lambda>g. if g \<in> set bxs then move_board ap p g (boards ?s1 g) else boards ?s1 g)
         = (\<lambda>g. if g \<in> set (bx # bxs) then move_board ap p g (boards s g) else boards s g)"
    using d(2) by (auto simp: fun_eq_iff)
  have Y: "(\<lambda>g. if g \<in> set bxs then (player_status ?s1 g)(p - 1 := move_flag ap g) else player_status ?s1 g)
         = (\<lambda>g. if g \<in> set (bx # bxs) then (player_status s g)(p - 1 := move_flag ap g) else player_status s g)"
    using d(2) by (auto simp: fun_eq_iff)
  have Z: "?s1\<lparr>boards := bb, player_status := pp\<rparr> = s\<lparr>boards := bb, player_status := pp\<rparr>" for bb pp
    by simp
  show ?case unfolding e1 e2 X Y Z ..
qed

lemma select_and_step_eq:
  assumes p: "p = 1 \<or> p = 2" and v: "valid_boards (boards s)"
  shows "select_and_step ap p s
         = Some (Inr (s\<lparr>boards := (\<lambda>bx. if bx < N_GAMES then move_board ap p bx (boards s bx) else boards s bx),
                        player_status := (\<lambda>bx. if bx < N_GAMES then (player_status s bx)(p - 1 := move_flag ap bx)
                                                else player_status s bx)\<rparr>))"
proof -
  have "\<forall>bx\<in>set [0..<N_GAMES]. valid_board (boards s bx)"
    using v by (simp add: valid_boards_def)
  from blocks_run[OF p _ this, of ap] show ?thesis
    by (simp add: select_and_step_def)
qed


text \<open>
  C3. When the reduction selects a cell for a game, the launch returns; afterwards the
  selected cell holds the mover's token, along every direction whose ray cast holds
  from the selected cell the opposing tokens up to the mover's token that ends the
  line are the mover's, and every other cell of the game is unchanged. The block of
  the game leaves the boards of all other games as they were, and after the launch
  the board of any game is the move of its own block on its own board.
\<close>

theorem select_and_step_move:
  assumes "valid_boards (boards s)" and "player = 1 \<or> player = 2" and "bx < N_GAMES"
    and "select_action ap bx = (ax, ay)" and "ax \<noteq> -1"
  shows "\<exists>s'. select_and_step ap player s = Some (Inr s')
      \<and> boards s' bx (ax, ay) = player
      \<and> (\<forall>ray\<in>set RAYS. ray_cast (boards s bx) ax ay ray player = Some (Inr True) \<longrightarrow>
            (\<exists>k\<in>{1..7}. line_of (boards s bx) ax ay ray player k
                \<and> (\<forall>j\<in>{1..k}. boards s' bx (ray_cell ax ay ray j) = player)))
      \<and> (\<forall>c. c \<noteq> (ax, ay) \<and> \<not> flipped (boards s bx) ax ay player c \<longrightarrow> boards s' bx c = boards s bx c)
      \<and> (\<forall>g. boards s' g = (if g < N_GAMES then move_board ap player g (boards s g) else boards s g))
      \<and> (\<exists>s1. select_and_step_block ap player bx s = Some (Inr s1)
              \<and> (\<forall>g. g \<noteq> bx \<longrightarrow> boards s1 g = boards s g))"
proof -
  let ?b = "boards s bx"
  let ?s' = "s\<lparr>boards := (\<lambda>bx. if bx < N_GAMES then move_board ap player bx (boards s bx) else boards s bx),
               player_status := (\<lambda>bx. if bx < N_GAMES then (player_status s bx)(player - 1 := move_flag ap bx)
                                       else player_status s bx)\<rparr>"
  have v: "valid_board ?b" using assms(1,3) by (simp add: valid_boards_def)
  have m: "boards ?s' bx = apply_move ?b ax ay player"
    using assms(3,4,5) by (simp add: move_board_def)
  have 1: "boards ?s' bx (ax, ay) = player" unfolding m by (simp add: apply_move_def)
  have 2: "\<exists>k\<in>{1..7}. line_of ?b ax ay ray player k
                \<and> (\<forall>j\<in>{1..k}. boards ?s' bx (ray_cell ax ay ray j) = player)"
    if ray: "ray \<in> set RAYS" and hit: "ray_cast ?b ax ay ray player = Some (Inr True)" for ray
  proof -
    have "capture_line ?b ax ay ray player"
      using ray_cast_valid[OF v assms(2) ray, of ax ay] hit by simp
    then obtain k where k: "k \<in> {1..7}" "line_of ?b ax ay ray player k"
      unfolding capture_line_def by blast
    have "boards ?s' bx (ray_cell ax ay ray j) = player" if "j \<in> {1..k}" for j
    proof -
      have "flipped_along ?b ax ay ray player (ray_cell ax ay ray j)"
        unfolding flipped_along_def using k that by blast
      then have "flipped ?b ax ay player (ray_cell ax ay ray j)"
        unfolding flipped_def using ray by blast
      then show ?thesis unfolding m by (simp add: apply_move_def)
    qed
    then show ?thesis using k by blast
  qed
  have 3: "\<forall>c. c \<noteq> (ax, ay) \<and> \<not> flipped ?b ax ay player c \<longrightarrow> boards ?s' bx c = ?b c"
    unfolding m by (simp add: apply_move_def)
  have 4: "\<forall>g. boards ?s' g = (if g < N_GAMES then move_board ap player g (boards s g) else boards s g)"
    by simp
  have 5: "\<exists>s1. select_and_step_block ap player bx s = Some (Inr s1)
              \<and> (\<forall>g. g \<noteq> bx \<longrightarrow> boards s1 g = boards s g)"
    using block_eq[OF assms(2) v, of ap] by simp
  have "select_and_step ap player s = Some (Inr ?s')"
    by (rule select_and_step_eq[OF assms(2,1)])
  then show ?thesis using 1 2 3 4 5 by blast
qed

theorem select_and_step_move_witness:
  "valid_boards (boards (init_state initial_board)) \<and> 0 < N_GAMES
   \<and> select_action one_move_grid 0 = (2, 3)
   \<and> (\<exists>s'. select_and_step one_move_grid 1 (init_state initial_board) = Some (Inr s')
          \<and> boards s' 0 (2, 3) = 1 \<and> boards s' 0 (3, 3) = 1 \<and> boards s' 0 (4, 4) = 2)"
proof -
  have vb: "valid_board initial_board"
    by (auto simp: valid_board_def initial_board_def)
  then have v: "valid_boards (boards (init_state initial_board))"
    by (simp add: valid_boards_def init_state_def)
  have n: "0 < N_GAMES" by (simp add: N_GAMES_def)
  have sel: "select_action one_move_grid 0 = (2, 3)"
    by (simp add: select_action_def row_scan_def range8_def one_move_grid_def)
  have b: "boards (init_state initial_board) 0 = initial_board" by (simp add: init_state_def)
  have r: "(1, 0) \<in> set RAYS" by (simp add: RAYS_def)
  have l: "line_of initial_board 2 3 (1, 0) 1 1"
    by (simp add: line_of_def ray_cell_def on_board_def initial_board_def)
  then have "capture_line initial_board 2 3 (1, 0) 1"
    unfolding capture_line_def by (intro bexI[of _ 1]) simp_all
  then have hit: "ray_cast initial_board 2 3 (1, 0) 1 = Some (Inr True)"
    using ray_cast_valid[OF vb _ r, of 1 2 3] by simp
  have nf: "\<not> flipped initial_board 2 3 1 (4, 4)"
    by (auto simp: flipped_def flipped_along_def RAYS_def ray_cell_def)
  from select_and_step_move[OF v _ n sel, of 1] obtain s' where s':
    "select_and_step one_move_grid 1 (init_state initial_board) = Some (Inr s')"
    "boards s' 0 (2, 3) = 1"
    "\<forall>ray\<in>set RAYS. ray_cast initial_board 2 3 ray 1 = Some (Inr True) \<longrightarrow>
            (\<exists>k\<in>{1..7}. line_of initial_board 2 3 ray 1 k
                \<and> (\<forall>j\<in>{1..k}. boards s' 0 (ray_cell 2 3 ray j) = 1))"
    "\<forall>c. c \<noteq> (2, 3) \<and> \<not> flipped initial_board 2 3 1 c \<longrightarrow> boards s' 0 c = initial_board c"
    unfolding b by auto
  from s'(3) r hit obtain k where "k \<in> {1..7}" "\<forall>j\<in>{1..k}. boards s' 0 (ray_cell 2 3 (1, 0) j) = 1"
    by blast
  then have "boards s' 0 (ray_cell 2 3 (1, 0) 1) = 1" by simp
  then have f: "boards s' 0 (3, 3) = 1" by (simp add: ray_cell_def)
  have "boards s' 0 (4, 4) = initial_board (4, 4)" using s'(4) nf by simp
  then have u: "boards s' 0 (4, 4) = 2" by (simp add: initial_board_def)
  show ?thesis using v n sel s'(1,2) f u by blast
qed

text \<open>
  C5. When the scores of a game are all zero, the launch returns with the board of
  that game unchanged and the mover's status flag of that game set to 1 (passed);
  the block of the game does nothing else: its whole effect on the state is that
  flag.
\<close>

theorem select_and_step_pass:
  assumes "valid_boards (boards s)" and "player = 1 \<or> player = 2" and "bx < N_GAMES"
    and "\<forall>tx\<in>{0..7}. \<forall>ty\<in>{0..7}. ap (bx, tx, ty) = 0"
  shows "\<exists>s'. select_and_step ap player s = Some (Inr s')
      \<and> boards s' bx = boards s bx
      \<and> player_status s' bx (player - 1) = 1
      \<and> select_and_step_block ap player bx s
          = Some (Inr (s\<lparr>player_status := (player_status s)(bx := (player_status s bx)(player - 1 := 1))\<rparr>))"
proof -
  let ?s' = "s\<lparr>boards := (\<lambda>bx. if bx < N_GAMES then move_board ap player bx (boards s bx) else boards s bx),
               player_status := (\<lambda>bx. if bx < N_GAMES then (player_status s bx)(player - 1 := move_flag ap bx)
                                       else player_status s bx)\<rparr>"
  have "\<forall>tx\<in>{0..7}. \<forall>ty\<in>{0..7}. ap (bx, tx, ty) \<le> 0" using assms(4) by simp
  then have sel: "select_action ap bx = (-1, -1)" by (rule select_action_none)
  have 1: "boards ?s' bx = boards s bx" using assms(3) sel by (simp add: move_board_def)
  have 2: "player_status ?s' bx (player - 1) = 1" using assms(3) sel by (simp add: move_flag_def)
  have 3: "select_and_step_block ap player bx s
          = Some (Inr (s\<lparr>player_status := (player_status s)(bx := (player_status s bx)(player - 1 := 1))\<rparr>))"
    by (rule block_pass[OF assms(2) sel])
  have "select_and_step ap player s = Some (Inr ?s')"
    by (rule select_and_step_eq[OF assms(2,1)])
  then show ?thesis using 1 2 3 by blast
qed

theorem select_and_step_pass_witness:
  "valid_boards (boards (init_state initial_board)) \<and> 0 < N_GAMES
   \<and> (\<exists>s'. select_and_step (\<lambda>t. 0) 1 (init_state initial_board) = Some (Inr s')
          \<and> boards s' 0 = initial_board \<and> player_status s' 0 0 = 1)"
proof -
  have "valid_board initial_board"
    by (auto simp: valid_board_def initial_board_def)
  then have v: "valid_boards (boards (init_state initial_board))"
    by (simp add: valid_boards_def init_state_def)
  have n: "0 < N_GAMES" by (simp add: N_GAMES_def)
  from select_and_step_pass[OF v _ n, of 1 "\<lambda>t. 0"] show ?thesis
    using v n by (auto simp: init_state_def)
qed

lemma ray_hit_run:
  assumes h: "ray_hit b x0 y0 ray p k" and k: "1 \<le> k"
  obtains m where "m \<in> {1..k}" "\<forall>j\<in>{1..m}. b (ray_cell x0 y0 ray j) = 3 - p"
    "b (ray_cell x0 y0 ray (Suc m)) \<noteq> 3 - p"
proof -
  let ?P = "\<lambda>m. b (ray_cell x0 y0 ray (Suc m)) \<noteq> 3 - p"
  define m where "m = (LEAST m. ?P m)"
  have "b (ray_cell x0 y0 ray (Suc k)) = p" using h by (simp add: ray_hit_def)
  moreover have "p \<noteq> 3 - p" by presburger
  ultimately have Pk: "?P k" by simp
  then have Pm: "?P m" unfolding m_def by (rule LeastI)
  have mk: "m \<le> k" unfolding m_def using Pk by (rule Least_le)
  have nP: "\<not> ?P j" if "j < m" for j using that unfolding m_def by (rule not_less_Least)
  have "\<not> ?P 0" using h by (simp add: ray_hit_def)
  then have m1: "1 \<le> m" using Pm by (cases m) auto
  have "b (ray_cell x0 y0 ray j) = 3 - p" if "j \<in> {1..m}" for j
  proof -
    from that obtain j' where j': "j = Suc j'" "j' < m" by (cases j) auto
    then show ?thesis using nP[of j'] by simp
  qed
  then show ?thesis using that[of m] m1 mk Pm by auto
qed

text \<open>
  C10. For a ray of the table, \<open>ray_cast\<close> returns a truth value on every board and
  from every origin: none of its reads is out of bounds. When it returns true, the
  cells of the ray up to the mover's token at step \<open>k + 1\<close> are on the board, and
  the flip loop returns without a fault: it writes the mover's token on the \<open>m\<close>
  opposing tokens next to the origin, all of them before the mover's token, and on
  nothing else.
\<close>

theorem flip_loop_in_bounds:
  assumes "ray \<in> set RAYS" and "ray_cast (bs bx) x0 y0 ray player = Some (Inr True)"
  shows "(\<exists>h. ray_cast b' x' y' ray player' = Some (Inr h))
    \<and> (\<exists>k\<in>{1..7}. \<exists>m\<in>{1..k}.
          (\<forall>j\<in>{1..Suc k}. on_board (ray_cell x0 y0 ray j))
          \<and> bs bx (ray_cell x0 y0 ray (Suc k)) = player
          \<and> (\<forall>j\<in>{1..m}. bs bx (ray_cell x0 y0 ray j) = 3 - player)
          \<and> flip_loop bs bx (x0 + fst ray) (y0 + snd ray) ray player (3 - player)
              = Some (Inr (bs(bx := (\<lambda>c. if \<exists>j\<in>{1..m}. c = ray_cell x0 y0 ray j then player
                                          else bs bx c)))))"
proof
  show "\<exists>h. ray_cast b' x' y' ray player' = Some (Inr h)"
    using ray_cast_eq[OF assms(1)] by blast
next
  let ?c = "ray_cell x0 y0 ray"
  let ?x = "x0 + fst ray" and ?y = "y0 + snd ray"
  from ray_cast_eq[OF assms(1), of "bs bx" x0 y0 player] assms(2)
  obtain k where k: "k \<in> {1..7}" "ray_hit (bs bx) x0 y0 ray player k" by auto
  then have k1: "1 \<le> k" by simp
  from ray_hit_run[OF k(2) k1] obtain m where m: "m \<in> {1..k}"
    "\<forall>j\<in>{1..m}. bs bx (?c j) = 3 - player" "bs bx (?c (Suc m)) \<noteq> 3 - player"
    by blast
  have on: "\<forall>j\<in>{1..Suc k}. on_board (?c j)" using k(2) by (simp add: ray_hit_def)
  have e: "bs bx (?c (Suc k)) = player" using k(2) by (simp add: ray_hit_def)
  have 1: "\<forall>j<m. on_board (ray_cell ?x ?y ray j) \<and> bs bx (ray_cell ?x ?y ray j) = 3 - player"
    unfolding ray_cell_Suc using on m(1,2) by auto
  have 2: "on_board (ray_cell ?x ?y ray m)" "bs bx (ray_cell ?x ?y ray m) \<noteq> 3 - player"
    unfolding ray_cell_Suc using on m(1,3) by auto
  have 3: "player \<noteq> 3 - player" by presburger
  have eq: "(\<exists>j<m. c = ray_cell ?x ?y ray j) \<longleftrightarrow> (\<exists>j\<in>{1..m}. c = ?c j)" for c
  proof
    assume "\<exists>j<m. c = ray_cell ?x ?y ray j"
    then obtain j where "j < m" "c = ?c (Suc j)" unfolding ray_cell_Suc by blast
    then show "\<exists>j\<in>{1..m}. c = ?c j" by (intro bexI[of _ "Suc j"]) auto
  next
    assume "\<exists>j\<in>{1..m}. c = ?c j"
    then obtain j where j: "j \<in> {1..m}" "c = ?c j" by blast
    then obtain j' where "j = Suc j'" by (cases j) auto
    then show "\<exists>j<m. c = ray_cell ?x ?y ray j" using j unfolding ray_cell_Suc by (intro exI[of _ j']) auto
  qed
  have "flip_loop bs bx ?x ?y ray player (3 - player)
        = Some (Inr (bs(bx := (\<lambda>c. if \<exists>j\<in>{1..m}. c = ?c j then player else bs bx c))))"
    using flip_loop_run[where bs = bs and bx = bx, OF 1 2 3] unfolding eq .
  then show "\<exists>k\<in>{1..7}. \<exists>m\<in>{1..k}.
          (\<forall>j\<in>{1..Suc k}. on_board (?c j))
          \<and> bs bx (?c (Suc k)) = player
          \<and> (\<forall>j\<in>{1..m}. bs bx (?c j) = 3 - player)
          \<and> flip_loop bs bx ?x ?y ray player (3 - player)
              = Some (Inr (bs(bx := (\<lambda>c. if \<exists>j\<in>{1..m}. c = ?c j then player
                                          else bs bx c))))"
    using k(1) m(1,2) on e by blast
qed

theorem flip_loop_in_bounds_witness:
  "(1, 0) \<in> set RAYS \<and> ray_cast initial_board 2 3 (1, 0) 1 = Some (Inr True)
   \<and> (\<exists>bs'. flip_loop (\<lambda>bx. initial_board) 0 3 3 (1, 0) 1 2 = Some (Inr bs'))"
proof -
  have vb: "valid_board initial_board"
    by (auto simp: valid_board_def initial_board_def)
  have r: "(1, 0) \<in> set RAYS" by (simp add: RAYS_def)
  have "line_of initial_board 2 3 (1, 0) 1 1"
    by (simp add: line_of_def ray_cell_def on_board_def initial_board_def)
  then have "capture_line initial_board 2 3 (1, 0) 1"
    unfolding capture_line_def by (intro bexI[of _ 1]) simp_all
  then have hit: "ray_cast initial_board 2 3 (1, 0) 1 = Some (Inr True)"
    using ray_cast_valid[OF vb _ r, of 1 2 3] by simp
  from flip_loop_in_bounds[where bs = "\<lambda>bx. initial_board" and bx = 0 and b' = initial_board
      and x' = 0 and y' = 0 and player' = 1, OF r hit]
  have "\<exists>bs'. flip_loop (\<lambda>bx. initial_board) 0 (2 + fst (1::int, 0::int)) (3 + snd (1::int, 0::int))
               (1, 0) 1 (3 - 1) = Some (Inr bs')"
    by blast
  then have "\<exists>bs'. flip_loop (\<lambda>bx. initial_board) 0 3 3 (1, 0) 1 2 = Some (Inr bs')"
    by simp
  then show ?thesis using r hit by blast
qed

section \<open>The scoring\<close>

lemma flatten_cells: "flatten b = map b cells"
  by (simp add: flatten_def cells_def map_concat comp_def)

lemma count_list_map_filter: "count_list (map f xs) v = length (filter (\<lambda>x. f x = v) xs)"
  by (induction xs) auto

lemma count_flatten: "count_list (flatten b) v = tokens b v"
  by (simp add: flatten_cells count_list_map_filter tokens_def)

lemma set_cells: "set cells = {c. on_board c}"
  by (force simp: cells_def set_range8 on_board_def)

lemma foldr_max_bound:
  assumes "\<forall>x\<in>set xs. 0 \<le> x \<and> x \<le> (n::int)" "0 \<le> n"
  shows "0 \<le> foldr max xs 0 \<and> foldr max xs 0 \<le> n"
  using assms by (induction xs) auto

lemma bincount_valid:
  assumes "valid_board b"
  shows "bincount (flatten b) 3 = Inr [tokens b 0, tokens b 1, tokens b 2]"
proof -
  have r: "\<forall>x\<in>set (flatten b). 0 \<le> x \<and> x \<le> 2"
  proof
    fix x assume "x \<in> set (flatten b)"
    then obtain c where "on_board c" "x = b c" by (auto simp: flatten_cells set_cells)
    then show "0 \<le> x \<and> x \<le> 2" using valid_boardD[OF assms, of c] by auto
  qed
  then have "0 \<le> foldr max (flatten b) 0 \<and> foldr max (flatten b) 0 \<le> 2"
    by (rule foldr_max_bound) simp
  then have "max 3 (nat (foldr max (flatten b) 0) + 1) = 3" by auto
  moreover have "[0..<3] = [0, 1, 2]" by (simp add: upt_rec)
  moreover have "\<not> (\<exists>x\<in>set (flatten b). x < 0)" using r by auto
  ultimately show ?thesis by (simp add: bincount_def count_flatten)
qed

lemma collect_map:
  assumes "\<forall>x\<in>set xs. f x = Inr (g x)"
  shows "collect (map f xs) = Inr (map g xs)"
  using assms by (induction xs) auto

lemma np_argmax_pair: "np_argmax [a, b] = (if a \<ge> b then 0 else 1)"
  by (auto simp: np_argmax_def)

lemma finalize_valid:
  assumes "valid_boards bs"
  shows "finalize bs = Inr (map (\<lambda>bx. outcome (bs bx)) [0..<N_GAMES])"
proof -
  let ?cnt = "\<lambda>bx. [tokens (bs bx) 0, tokens (bs bx) 1, tokens (bs bx) 2]"
  have "\<forall>bx\<in>set [0..<N_GAMES]. bincount (flatten (bs bx)) 3 = Inr (?cnt bx)"
    using assms bincount_valid by (simp add: valid_boards_def)
  then have c: "collect (map (\<lambda>bx. bincount (flatten (bs bx)) 3) [0..<N_GAMES])
                = Inr (map ?cnt [0..<N_GAMES])"
    by (rule collect_map)
  let ?scores = "map (\<lambda>bx. [tokens (bs bx) 1, tokens (bs bx) 2]) [0..<N_GAMES]"
  have s: "map (drop 1) (map ?cnt [0..<N_GAMES]) = ?scores" by simp
  have l: "\<not> (\<exists>row\<in>set ?scores. length row \<noteq> length (hd ?scores))"
    by (auto simp: N_GAMES_def upt_rec)
  have w: "map (\<lambda>row. if row ! 0 = row ! 1 then 0 else int (np_argmax row) + 1) ?scores
           = map (\<lambda>bx. outcome (bs bx)) [0..<N_GAMES]"
    by (auto simp: np_argmax_pair outcome_def)
  show ?thesis unfolding finalize_def c sum.case Let_def s using l w by simp
qed

text \<open>
  C8. On final boards of empty cells and tokens, the scoring returns one outcome per
  game, in order: 1 when player 1 has strictly more tokens on the game's board, 2
  when player 2 has, 0 when the counts are equal; \<open>rollout\<close> returns the scoring of
  the boards its loop ends with.
\<close>

theorem finalize_outcomes:
  assumes "valid_boards bs"
  shows "\<exists>ws. finalize bs = Inr ws \<and> length ws = N_GAMES
      \<and> (\<forall>g\<in>{0..<N_GAMES}. ws ! g = outcome (bs g) \<and> ws ! g \<in> {0, 1, 2}
            \<and> (tokens (bs g) 1 > tokens (bs g) 2 \<longrightarrow> ws ! g = 1)
            \<and> (tokens (bs g) 2 > tokens (bs g) 1 \<longrightarrow> ws ! g = 2)
            \<and> (tokens (bs g) 1 = tokens (bs g) 2 \<longrightarrow> ws ! g = 0))
      \<and> (\<forall>turns s. rollout_loop rng 0 planner ap (init_state board) = Some (Inr (turns, s))
            \<longrightarrow> rollout rng ap board planner = Some (finalize (boards s)))"
proof -
  let ?ws = "map (\<lambda>bx. outcome (bs bx)) [0..<N_GAMES]"
  have 1: "finalize bs = Inr ?ws" by (rule finalize_valid[OF assms])
  have 2: "length ?ws = N_GAMES" by simp
  have 3: "\<forall>g\<in>{0..<N_GAMES}. ?ws ! g = outcome (bs g) \<and> ?ws ! g \<in> {0, 1, 2}
            \<and> (tokens (bs g) 1 > tokens (bs g) 2 \<longrightarrow> ?ws ! g = 1)
            \<and> (tokens (bs g) 2 > tokens (bs g) 1 \<longrightarrow> ?ws ! g = 2)
            \<and> (tokens (bs g) 1 = tokens (bs g) 2 \<longrightarrow> ?ws ! g = 0)"
    by (auto simp: outcome_def)
  have 4: "\<forall>turns s. rollout_loop rng 0 planner ap (init_state board) = Some (Inr (turns, s))
            \<longrightarrow> rollout rng ap board planner = Some (finalize (boards s))"
    by (simp add: rollout_def)
  show ?thesis using 1 2 3 4 by blast
qed

theorem finalize_outcomes_witness:
  "valid_boards (\<lambda>bx. initial_board) \<and> tokens initial_board 1 = 2 \<and> tokens initial_board 2 = 2
   \<and> (\<exists>ws. finalize (\<lambda>bx. initial_board) = Inr ws \<and> length ws = N_GAMES \<and> ws ! 0 = 0)"
proof -
  have "valid_board initial_board"
    by (auto simp: valid_board_def initial_board_def)
  then have v: "valid_boards (\<lambda>bx. initial_board)" by (simp add: valid_boards_def)
  have t: "tokens initial_board 1 = 2" "tokens initial_board 2 = 2"
    by (simp_all add: tokens_def cells_def range8_def initial_board_def)
  have n: "0 \<in> {0..<N_GAMES}" by (simp add: N_GAMES_def)
  from finalize_outcomes[OF v] obtain ws where ws: "finalize (\<lambda>bx. initial_board) = Inr ws"
    "length ws = N_GAMES"
    "\<forall>g\<in>{0..<N_GAMES}. tokens initial_board 1 = tokens initial_board 2 \<longrightarrow> ws ! g = 0"
    by blast
  from ws(3) n t have "ws ! 0 = 0" by simp
  then show ?thesis using v t ws(1,2) by blast
qed

section \<open>What a turn does to a game\<close>

lemma turn_eq:
  assumes p: "p = 1 \<or> p = 2" and v: "valid_boards (boards s)"
  shows "turn r p ap s
         = Some (Inr (scores r (boards s) p ap,
              s\<lparr>boards := (\<lambda>bx. if bx < N_GAMES then move_board (scores r (boards s) p ap) p bx (boards s bx)
                                else boards s bx),
                player_status := (\<lambda>bx. if bx < N_GAMES
                                        then (player_status s bx)(p - 1 := move_flag (scores r (boards s) p ap) bx)
                                        else player_status s bx)\<rparr>))"
  unfolding turn_def find_actions_eq scores_def[symmetric]
  using select_and_step_eq[OF p v] by simp

lemma scores_game:
  assumes "valid_boards bs" "p = 1 \<or> p = 2" "bx < N_GAMES" "tx \<in> {0..7}" "ty \<in> {0..7}"
  shows "scores r bs p ap (bx, tx, ty) = score r bs p (bx, tx, ty)"
proof -
  have "(bx, tx, ty) \<in> set threads" using assms(3,4,5) by (simp add: set_threads)
  moreover have "valid_board (bs bx)" using assms(1,3) by (simp add: valid_boards_def)
  ultimately show ?thesis
    using thread_score_valid[where bs = bs and bx = bx, OF _ assms(2)] by (simp add: scores_def)
qed

lemma score_pos:
  assumes "unit_draws r"
  shows "0 < score r bs p (bx, tx, ty) \<longleftrightarrow> legal_move (bs bx) p tx ty"
  using assms by (auto simp: legal_move_def unit_draws_def)

lemma score_nonneg:
  assumes "unit_draws r"
  shows "0 \<le> score r bs p (bx, tx, ty)"
  using assms by (auto simp: unit_draws_def less_imp_le)

lemma game_pass:
  assumes v: "valid_boards bs" and p: "p = 1 \<or> p = 2" and bx: "bx < N_GAMES"
    and nm: "no_move (bs bx) p"
  shows "select_action (scores r bs p ap) bx = (-1, -1)"
proof (rule select_action_none, intro ballI)
  fix tx ty :: int assume t: "tx \<in> {0..7}" "ty \<in> {0..7}"
  have "\<not> legal_move (bs bx) p tx ty" using nm t unfolding no_move_def by blast
  then have "score r bs p (bx, tx, ty) = 0" by (auto simp: legal_move_def)
  then show "scores r bs p ap (bx, tx, ty) \<le> 0"
    using scores_game[OF v p bx t] by simp
qed

lemma game_play:
  assumes v: "valid_boards bs" and p: "p = 1 \<or> p = 2" and bx: "bx < N_GAMES"
    and u: "unit_draws r" and m: "\<not> no_move (bs bx) p"
  obtains ax ay where "select_action (scores r bs p ap) bx = (ax, ay)" "ax \<noteq> -1"
    "ax \<in> {0..7}" "ay \<in> {0..7}" "legal_move (bs bx) p ax ay"
proof -
  from m obtain x y where xy: "x \<in> {0..7}" "y \<in> {0..7}" "legal_move (bs bx) p x y"
    unfolding no_move_def by blast
  then have "0 < scores r bs p ap (bx, x, y)"
    using scores_game[OF v p bx xy(1,2)] score_pos[OF u] by simp
  then have "\<exists>tx\<in>{0..7}. \<exists>ty\<in>{0..7}. scores r bs p ap (bx, tx, ty) > 0" using xy(1,2) by blast
  then show ?thesis
  proof (rule select_action_some)
    fix ax ay assume s: "select_action (scores r bs p ap) bx = (ax, ay)" "ax \<in> {0..7}" "ay \<in> {0..7}"
      "0 < scores r bs p ap (bx, ax, ay)"
    have "legal_move (bs bx) p ax ay"
      using s(4) scores_game[OF v p bx s(2,3)] score_pos[OF u] by simp
    moreover have "ax \<noteq> -1" using s(2) by auto
    ultimately show ?thesis using that s by blast
  qed
qed

lemma turn_game:
  assumes p: "p = 1 \<or> p = 2" and v: "valid_boards (boards s)" and u: "unit_draws r"
    and t: "turn r p ap s = Some (Inr (ap', s'))" and bx: "bx < N_GAMES"
  shows "(no_move (boards s bx) p \<longrightarrow>
            boards s' bx = boards s bx \<and> player_status s' bx = (player_status s bx)(p - 1 := 1))
       \<and> (\<not> no_move (boards s bx) p \<longrightarrow>
            (\<exists>ax\<in>{0..7}. \<exists>ay\<in>{0..7}. legal_move (boards s bx) p ax ay
                \<and> boards s' bx = apply_move (boards s bx) ax ay p)
            \<and> player_status s' bx = (player_status s bx)(p - 1 := 0))"
proof -
  let ?sc = "scores r (boards s) p ap"
  from t turn_eq[OF p v, of r ap]
  have b': "boards s' bx = move_board ?sc p bx (boards s bx)"
    and f': "player_status s' bx = (player_status s bx)(p - 1 := move_flag ?sc bx)"
    using bx by auto
  show ?thesis
  proof (cases "no_move (boards s bx) p")
    case True
    from game_pass[OF v p bx True, of r ap] show ?thesis
      using True b' f' by (simp add: move_board_def move_flag_def)
  next
    case False
    from game_play[OF v p bx u False, of ap] obtain ax ay where
      a: "select_action ?sc bx = (ax, ay)" "ax \<noteq> -1" "ax \<in> {0..7}" "ay \<in> {0..7}"
         "legal_move (boards s bx) p ax ay" by blast
    have "boards s' bx = apply_move (boards s bx) ax ay p"
      using b' a(1,2) by (simp add: move_board_def)
    moreover have "player_status s' bx = (player_status s bx)(p - 1 := 0)"
      using f' a(1,2) by (simp add: move_flag_def)
    ultimately show ?thesis using False a(3,4,5) by blast
  qed
qed

section \<open>Starts without a legal move\<close>

lemma sum_list_const:
  assumes "\<forall>x\<in>set xs. f x = (k::int)"
  shows "sum_list (map f xs) = int (length xs) * k"
  using assms by (induction xs) (auto simp: algebra_simps)

lemma status_sum_const:
  assumes "\<forall>bx<N_GAMES. player_status s bx 0 + player_status s bx 1 = k"
  shows "status_sum s = int N_GAMES * k"
  unfolding status_sum_def using sum_list_const[of "[0..<N_GAMES]" _ k] assms by simp

lemma turn_pass_all:
  assumes p: "p = 1 \<or> p = 2" and v: "valid_boards (boards s)"
    and nm: "\<forall>bx<N_GAMES. no_move (boards s bx) p"
  shows "turn r p ap s
         = Some (Inr (scores r (boards s) p ap,
              s\<lparr>player_status := (\<lambda>bx. if bx < N_GAMES then (player_status s bx)(p - 1 := 1)
                                         else player_status s bx)\<rparr>))"
proof -
  let ?sc = "scores r (boards s) p ap"
  have sel: "select_action ?sc bx = (-1, -1)" if "bx < N_GAMES" for bx
    using game_pass[OF v p that] nm that by blast
  have 1: "(\<lambda>bx. if bx < N_GAMES then move_board ?sc p bx (boards s bx) else boards s bx) = boards s"
    using sel by (auto simp: fun_eq_iff move_board_def)
  have 2: "(\<lambda>bx. if bx < N_GAMES then (player_status s bx)(p - 1 := move_flag ?sc bx) else player_status s bx)
         = (\<lambda>bx. if bx < N_GAMES then (player_status s bx)(p - 1 := 1) else player_status s bx)"
    using sel by (auto simp: fun_eq_iff move_flag_def)
  show ?thesis unfolding turn_eq[OF p v] 1 2 by simp
qed

lemma rollout_stuck:
  assumes v: "valid_board b" and p: "planner = 1 \<or> planner = 2"
    and n1: "no_move b 1" and n2: "no_move b 2"
  shows "\<exists>s. rollout_loop rng 0 planner ap (init_state b) = Some (Inr (2, s)) \<and> boards s = (\<lambda>bx. b)"
proof -
  let ?s0 = "init_state b"
  let ?f1 = "\<lambda>bx. if bx < N_GAMES then (player_status ?s0 bx)(planner - 1 := 1) else player_status ?s0 bx"
  let ?s1 = "?s0\<lparr>player_status := ?f1\<rparr>"
  let ?f2 = "\<lambda>bx. if bx < N_GAMES then (player_status ?s1 bx)(3 - planner - 1 := 1) else player_status ?s1 bx"
  let ?s2 = "?s1\<lparr>player_status := ?f2\<rparr>"
  let ?a1 = "scores (rng 0) (boards ?s0) planner ap"
  let ?a2 = "scores (rng (Suc 0)) (boards ?s1) (3 - planner) ?a1"
  have p': "3 - planner = 1 \<or> 3 - planner = 2" using p by auto
  have nm: "no_move b planner" "no_move b (3 - planner)" using p n1 n2 by auto
  have v0: "valid_boards (boards ?s0)" using v by (simp add: valid_boards_def init_state_def)
  have v1: "valid_boards (boards ?s1)" using v0 by simp
  have t0: "turn (rng 0) planner ap ?s0 = Some (Inr (?a1, ?s1))"
    by (rule turn_pass_all[OF p v0]) (simp add: init_state_def nm)
  have t1: "turn (rng (Suc 0)) (3 - planner) ?a1 ?s1 = Some (Inr (?a2, ?s2))"
    by (rule turn_pass_all[OF p' v1]) (simp add: init_state_def nm)
  have c0: "status_sum ?s0 = int N_GAMES * 0"
    by (rule status_sum_const) (simp add: init_state_def)
  have c1: "status_sum ?s1 = int N_GAMES * 1"
    by (rule status_sum_const) (use p in \<open>auto simp: init_state_def\<close>)
  have c2: "status_sum ?s2 = int N_GAMES * 2"
    by (rule status_sum_const) (use p in \<open>auto simp: init_state_def\<close>)
  have n: "0 < N_GAMES" by (simp add: N_GAMES_def)
  have k0: "status_sum ?s0 < 2 * int N_GAMES" using c0 n by simp
  have k1: "status_sum ?s1 < 2 * int N_GAMES" using c1 n by simp
  have k2: "\<not> status_sum ?s2 < 2 * int N_GAMES" using c2 by simp
  have e2: "rollout_loop rng (Suc (Suc 0)) (3 - (3 - planner)) ?a2 ?s2 = Some (Inr (Suc (Suc 0), ?s2))"
    by (subst rollout_loop.simps) (simp only: k2 if_False)
  have e1: "rollout_loop rng (Suc 0) (3 - planner) ?a1 ?s1 = Some (Inr (Suc (Suc 0), ?s2))"
    by (subst rollout_loop.simps) (simp only: k1 if_True t1 option.case sum.case prod.case e2)
  have e0: "rollout_loop rng 0 planner ap ?s0 = Some (Inr (Suc (Suc 0), ?s2))"
    by (subst rollout_loop.simps) (simp only: k0 if_True t0 option.case sum.case prod.case e1)
  have two: "Suc (Suc 0) = 2" by simp
  have "boards ?s2 = (\<lambda>bx. b)" by (simp add: init_state_def)
  then show ?thesis using e0 unfolding two by blast
qed

lemma no_move_empties:
  assumes "empties b = 0"
  shows "no_move b p"
proof -
  have "\<forall>c\<in>set cells. b c \<noteq> 0"
    using assms by (simp add: empties_def tokens_def filter_empty_conv)
  then have "b (x, y) \<noteq> 0" if "x \<in> {0..7}" "y \<in> {0..7}" for x y
    using that by (simp add: set_cells on_board_def)
  then show ?thesis by (auto simp: no_move_def legal_move_def)
qed

lemma no_move_empty_board: "no_move empty_board p"
  by (auto simp: no_move_def legal_move_def capture_line_def line_of_def empty_board_def)

lemma finalize_const:
  assumes "valid_board b"
  shows "finalize (\<lambda>bx. b) = Inr (replicate N_GAMES (outcome b))"
proof -
  have "valid_boards (\<lambda>bx. b)" using assms by (simp add: valid_boards_def)
  from finalize_valid[OF this] show ?thesis by (simp add: map_replicate_const)
qed

lemma rollout_stuck_outcomes:
  assumes v: "valid_board b" and p: "planner = 1 \<or> planner = 2"
    and n1: "no_move b 1" and n2: "no_move b 2"
  shows "rollout rng ap b planner = Some (Inr (replicate N_GAMES (outcome b)))"
proof -
  from rollout_stuck[OF assms, of rng ap] obtain s where
    "rollout_loop rng 0 planner ap (init_state b) = Some (Inr (2, s))" "boards s = (\<lambda>bx. b)" by blast
  then show ?thesis using finalize_const[OF v] by (simp add: rollout_def)
qed

text \<open>
  C9, as the specification states it, fails: \<open>rollout\<close> checks nothing before it
  initialises the batch. On the empty board neither player can move, and the call
  returns 32 draws.
\<close>

theorem rollout_rejects_counterexample:
  "no_move empty_board 1 \<and> no_move empty_board 2
   \<and> rollout half_draws zero_grid empty_board 1 = Some (Inr (replicate N_GAMES 0))"
proof -
  have v: "valid_board empty_board" by (simp add: valid_board_def empty_board_def)
  have o: "outcome empty_board = 0" by (simp add: outcome_def tokens_def empty_board_def)
  show ?thesis
    using rollout_stuck_outcomes[OF v _ no_move_empty_board no_move_empty_board, of 1 half_draws zero_grid]
      no_move_empty_board o by simp
qed

text \<open>
  C9, amended. A starting board of empty cells and tokens on which neither player
  has a legal move is accepted: the batch is initialised, the loop runs two turns in
  which every game passes, the boards are unchanged, and \<open>rollout\<close> returns for every
  game the outcome of the starting board.
\<close>

theorem rollout_accepts_stuck_start:
  assumes "valid_board b" and "planner = 1 \<or> planner = 2" and "no_move b 1" and "no_move b 2"
  shows "rollout rng ap b planner = Some (Inr (replicate N_GAMES (outcome b)))
    \<and> (\<exists>s. rollout_loop rng 0 planner ap (init_state b) = Some (Inr (2, s)) \<and> boards s = (\<lambda>bx. b))"
  using rollout_stuck_outcomes[OF assms] rollout_stuck[OF assms] by blast

theorem rollout_accepts_stuck_start_witness:
  "valid_board empty_board \<and> no_move empty_board 2
   \<and> rollout half_draws zero_grid empty_board 2 = Some (Inr (replicate N_GAMES (outcome empty_board)))"
proof -
  have v: "valid_board empty_board" by (simp add: valid_board_def empty_board_def)
  show ?thesis
    using rollout_accepts_stuck_start[OF v _ no_move_empty_board no_move_empty_board, of 2 half_draws zero_grid]
      v no_move_empty_board by simp
qed

section \<open>Termination of the loop\<close>

lemma filter_drop_one:
  assumes "distinct xs" "a \<in> set xs" "P a"
  shows "length (filter (\<lambda>c. P c \<and> c \<noteq> a) xs) + 1 = length (filter P xs)"
  using assms
proof (induction xs)
  case Nil
  then show ?case by simp
next
  case (Cons x xs)
  show ?case
  proof (cases "x = a")
    case True
    then have "a \<notin> set xs" using Cons.prems(1) by simp
    then have "filter (\<lambda>c. P c \<and> c \<noteq> a) xs = filter P xs"
      by (intro filter_cong) auto
    then show ?thesis using True Cons.prems(3) by simp
  next
    case False
    then have "a \<in> set xs" "distinct xs" using Cons.prems by auto
    from Cons.IH[OF this(2,1) Cons.prems(3)] show ?thesis using False by simp
  qed
qed

lemma distinct_cells: "distinct cells"
  by (simp add: cells_def range8_def)

lemma flipped_opponent:
  assumes "flipped b x0 y0 p c"
  shows "b c = 3 - p"
  using assms unfolding flipped_def flipped_along_def line_of_def by auto

lemma empties_apply_move:
  assumes l: "legal_move b p ax ay" and p: "p = 1 \<or> p = 2" and o: "on_board (ax, ay)"
  shows "empties (apply_move b ax ay p) + 1 = empties b"
proof -
  have z: "b (ax, ay) = 0" using l by (simp add: legal_move_def)
  have "apply_move b ax ay p c = 0 \<longleftrightarrow> b c = 0 \<and> c \<noteq> (ax, ay)" for c
    using p flipped_opponent[of b ax ay p c] by (auto simp: apply_move_def)
  then have "empties (apply_move b ax ay p) = length (filter (\<lambda>c. b c = 0 \<and> c \<noteq> (ax, ay)) cells)"
    by (simp add: empties_def tokens_def)
  moreover have "(ax, ay) \<in> set cells" using o by (simp add: set_cells)
  ultimately show ?thesis
    using filter_drop_one[OF distinct_cells, of "(ax, ay)" "\<lambda>c. b c = 0"] z
    by (simp add: empties_def tokens_def)
qed

lemma valid_apply_move:
  assumes "valid_board b" "p = 1 \<or> p = 2"
  shows "valid_board (apply_move b ax ay p)"
  unfolding apply_move_def using valid_board_upd[OF assms] .

lemma game_step_pass:
  assumes i: "game_inv b f p" and p: "p = 1 \<or> p = 2" and nm: "no_move b p"
  shows "game_inv b (f(p - 1 := 1)) (3 - p)
    \<and> (game_measure b f p = 0 \<longrightarrow> game_measure b (f(p - 1 := 1)) (3 - p) = 0)
    \<and> (game_measure b f p > 0 \<longrightarrow> game_measure b (f(p - 1 := 1)) (3 - p) < game_measure b f p)"
proof (cases "p = 1")
  case True
  then show ?thesis using i nm by (auto simp: game_inv_def game_measure_def)
next
  case False
  then have "p = 2" using p by simp
  then show ?thesis using i nm by (auto simp: game_inv_def game_measure_def)
qed

lemma game_step_play:
  assumes i: "game_inv b f p" and p: "p = 1 \<or> p = 2" and m: "\<not> no_move b p"
    and l: "legal_move b p ax ay" and o: "on_board (ax, ay)"
  shows "game_inv (apply_move b ax ay p) (f(p - 1 := 0)) (3 - p)"
    and "game_measure (apply_move b ax ay p) (f(p - 1 := 0)) (3 - p) < game_measure b f p"
proof -
  have e: "empties (apply_move b ax ay p) + 1 = empties b"
    by (rule empties_apply_move[OF l p o])
  have v: "valid_board (apply_move b ax ay p)"
    using valid_apply_move[OF _ p] i by (simp add: game_inv_def)
  from p show "game_inv (apply_move b ax ay p) (f(p - 1 := 0)) (3 - p)"
  proof
    assume "p = 1"
    then show ?thesis using i v by (auto simp: game_inv_def)
  next
    assume "p = 2"
    then show ?thesis using i v by (auto simp: game_inv_def)
  qed
  from p show "game_measure (apply_move b ax ay p) (f(p - 1 := 0)) (3 - p) < game_measure b f p"
  proof
    assume "p = 1"
    then show ?thesis using i m e by (auto simp: game_inv_def game_measure_def)
  next
    assume "p = 2"
    then show ?thesis using i m e by (auto simp: game_inv_def game_measure_def)
  qed
qed

lemma sum_list_two:
  assumes "\<forall>x\<in>set xs. g x \<le> (2::int)"
  shows "sum_list (map g xs) \<le> 2 * int (length xs)
       \<and> (sum_list (map g xs) < 2 * int (length xs) \<longleftrightarrow> (\<exists>x\<in>set xs. g x < 2))"
  using assms
proof (induction xs)
  case Nil
  then show ?case by simp
next
  case (Cons x xs)
  then have "g x \<le> 2" and IH: "sum_list (map g xs) \<le> 2 * int (length xs)"
    "sum_list (map g xs) < 2 * int (length xs) \<longleftrightarrow> (\<exists>x\<in>set xs. g x < 2)"
    by auto
  then show ?case by auto
qed

lemma flags_sum:
  assumes "game_inv b f p" "p = 1 \<or> p = 2"
  shows "f 0 + f 1 \<le> 2 \<and> (f 0 + f 1 < 2 \<longleftrightarrow> game_measure b f p > 0)"
  using assms by (auto simp: game_inv_def game_measure_def)

lemma loop_cond:
  assumes p: "p = 1 \<or> p = 2"
    and inv: "\<forall>bx<N_GAMES. game_inv (boards s bx) (player_status s bx) p"
  shows "status_sum s < 2 * int N_GAMES
         \<longleftrightarrow> (\<exists>bx<N_GAMES. game_measure (boards s bx) (player_status s bx) p > 0)"
proof -
  let ?g = "\<lambda>bx. player_status s bx 0 + player_status s bx 1"
  have fs: "?g bx \<le> 2" "?g bx < 2 \<longleftrightarrow> game_measure (boards s bx) (player_status s bx) p > 0"
    if "bx < N_GAMES" for bx
    using flags_sum[OF _ p, of "boards s bx" "player_status s bx"] inv that by simp_all
  have le: "\<forall>bx\<in>set [0..<N_GAMES]. ?g bx \<le> 2" using fs(1) by simp
  have "status_sum s < 2 * int N_GAMES \<longleftrightarrow> (\<exists>bx\<in>set [0..<N_GAMES]. ?g bx < 2)"
    using sum_list_two[OF le] by (simp add: status_sum_def)
  also have "\<dots> \<longleftrightarrow> (\<exists>bx<N_GAMES. ?g bx < 2)" by auto
  also have "\<dots> \<longleftrightarrow> (\<exists>bx<N_GAMES. game_measure (boards s bx) (player_status s bx) p > 0)"
    using fs(2) by blast
  finally show ?thesis .
qed

lemma inv_valid:
  assumes "\<forall>bx<N_GAMES. game_inv (boards s bx) (player_status s bx) p"
  shows "valid_boards (boards s)"
  using assms by (simp add: valid_boards_def game_inv_def)

lemma turn_step:
  assumes p: "p = 1 \<or> p = 2" and u: "unit_draws r"
    and inv: "\<forall>bx<N_GAMES. game_inv (boards s bx) (player_status s bx) p"
  obtains ap' s' where "turn r p ap s = Some (Inr (ap', s'))"
    "\<forall>bx<N_GAMES. game_inv (boards s' bx) (player_status s' bx) (3 - p)"
    "\<forall>bx<N_GAMES.
       (game_measure (boards s bx) (player_status s bx) p = 0
          \<longrightarrow> game_measure (boards s' bx) (player_status s' bx) (3 - p) = 0)
       \<and> (game_measure (boards s bx) (player_status s bx) p > 0
            \<longrightarrow> game_measure (boards s' bx) (player_status s' bx) (3 - p)
                < game_measure (boards s bx) (player_status s bx) p)"
proof -
  have v: "valid_boards (boards s)" by (rule inv_valid[OF inv])
  from turn_eq[OF p v, of r ap] obtain ap' s' where t: "turn r p ap s = Some (Inr (ap', s'))"
    by blast
  have g: "game_inv (boards s' bx) (player_status s' bx) (3 - p)
       \<and> (game_measure (boards s bx) (player_status s bx) p = 0
          \<longrightarrow> game_measure (boards s' bx) (player_status s' bx) (3 - p) = 0)
       \<and> (game_measure (boards s bx) (player_status s bx) p > 0
            \<longrightarrow> game_measure (boards s' bx) (player_status s' bx) (3 - p)
                < game_measure (boards s bx) (player_status s bx) p)"
    if bx: "bx < N_GAMES" for bx
  proof -
    have i: "game_inv (boards s bx) (player_status s bx) p" using inv bx by simp
    note tg = turn_game[OF p v u t bx]
    show ?thesis
    proof (cases "no_move (boards s bx) p")
      case True
      then have "boards s' bx = boards s bx" "player_status s' bx = (player_status s bx)(p - 1 := 1)"
        using tg by simp_all
      then show ?thesis using game_step_pass[OF i p True] by simp
    next
      case False
      then obtain ax ay where a: "ax \<in> {0..7}" "ay \<in> {0..7}" "legal_move (boards s bx) p ax ay"
        "boards s' bx = apply_move (boards s bx) ax ay p" using tg by blast
      have f: "player_status s' bx = (player_status s bx)(p - 1 := 0)" using tg False by simp
      have o: "on_board (ax, ay)" using a(1,2) by (simp add: on_board_def)
      from game_step_play[OF i p False a(3) o] show ?thesis unfolding a(4) f by simp
    qed
  qed
  show ?thesis using that[OF t] g by blast
qed

lemma loop_bound:
  assumes u: "\<forall>k. unit_draws (rng k)" and p: "p = 1 \<or> p = 2"
    and inv: "\<forall>bx<N_GAMES. game_inv (boards s bx) (player_status s bx) p"
    and m: "\<forall>bx<N_GAMES. game_measure (boards s bx) (player_status s bx) p \<le> n"
  shows "\<exists>turns s'. rollout_loop rng t p ap s = Some (Inr (turns, s')) \<and> turns \<le> t + n
           \<and> valid_boards (boards s')"
  using p inv m
proof (induction n arbitrary: t p ap s)
  case 0
  then have "\<not> (\<exists>bx<N_GAMES. game_measure (boards s bx) (player_status s bx) p > 0)" by simp
  then have c: "\<not> status_sum s < 2 * int N_GAMES" using loop_cond[OF "0.prems"(1,2)] by simp
  have "rollout_loop rng t p ap s = Some (Inr (t, s))"
    by (subst rollout_loop.simps) (simp only: c if_False)
  then show ?case using inv_valid[OF "0.prems"(2)] by simp
next
  case (Suc n)
  show ?case
  proof (cases "status_sum s < 2 * int N_GAMES")
    case False
    have "rollout_loop rng t p ap s = Some (Inr (t, s))"
      by (subst rollout_loop.simps) (simp only: False if_False)
    then show ?thesis using inv_valid[OF Suc.prems(2)] by simp
  next
    case True
    have ur: "unit_draws (rng t)" using u by simp
    from turn_step[OF Suc.prems(1) ur Suc.prems(2), of ap] obtain ap' s' where
      t: "turn (rng t) p ap s = Some (Inr (ap', s'))"
      and i': "\<forall>bx<N_GAMES. game_inv (boards s' bx) (player_status s' bx) (3 - p)"
      and d: "\<forall>bx<N_GAMES.
       (game_measure (boards s bx) (player_status s bx) p = 0
          \<longrightarrow> game_measure (boards s' bx) (player_status s' bx) (3 - p) = 0)
       \<and> (game_measure (boards s bx) (player_status s bx) p > 0
            \<longrightarrow> game_measure (boards s' bx) (player_status s' bx) (3 - p)
                < game_measure (boards s bx) (player_status s bx) p)"
      by blast
    have p': "3 - p = 1 \<or> 3 - p = 2" using Suc.prems(1) by auto
    have m': "\<forall>bx<N_GAMES. game_measure (boards s' bx) (player_status s' bx) (3 - p) \<le> n"
    proof (intro allI impI)
      fix bx assume bx: "bx < N_GAMES"
      show "game_measure (boards s' bx) (player_status s' bx) (3 - p) \<le> n"
      proof (cases "game_measure (boards s bx) (player_status s bx) p = 0")
        case True
        then show ?thesis using d bx by simp
      next
        case False
        then have "game_measure (boards s' bx) (player_status s' bx) (3 - p)
                   < game_measure (boards s bx) (player_status s bx) p" using d bx by simp
        moreover have "game_measure (boards s bx) (player_status s bx) p \<le> Suc n"
          using Suc.prems(3) bx by simp
        ultimately show ?thesis by simp
      qed
    qed
    from Suc.IH[OF p' i' m', of "Suc t" ap'] obtain turns s'' where
      r: "rollout_loop rng (Suc t) (3 - p) ap' s' = Some (Inr (turns, s''))" "turns \<le> Suc t + n"
        "valid_boards (boards s'')" by blast
    have "rollout_loop rng t p ap s = rollout_loop rng (Suc t) (3 - p) ap' s'"
      by (subst rollout_loop.simps) (simp only: True if_True t option.case sum.case prod.case)
    then show ?thesis using r by simp
  qed
qed

lemma sum_list_less_iff:
  assumes "\<forall>x\<in>set xs. f x \<le> (g x :: nat)"
  shows "sum_list (map f xs) \<le> sum_list (map g xs)
       \<and> (sum_list (map f xs) < sum_list (map g xs) \<longleftrightarrow> (\<exists>x\<in>set xs. f x < g x))"
  using assms
proof (induction xs)
  case Nil
  then show ?case by simp
next
  case (Cons x xs)
  then have "f x \<le> g x" and IH: "sum_list (map f xs) \<le> sum_list (map g xs)"
    "sum_list (map f xs) < sum_list (map g xs) \<longleftrightarrow> (\<exists>x\<in>set xs. f x < g x)"
    by auto
  then show ?case by auto
qed

lemma init_inv: 
  assumes "valid_board b"
  shows "game_inv b (\<lambda>j. 0) p" "game_measure b (\<lambda>j. 0) p = 2 * empties b + 2"
  using assms by (simp_all add: game_inv_def game_measure_def)

lemma rollout_loop_bound:
  assumes v: "valid_board b" and p: "planner = 1 \<or> planner = 2" and u: "\<forall>k. unit_draws (rng k)"
  shows "\<exists>turns s. rollout_loop rng 0 planner ap (init_state b) = Some (Inr (turns, s))
           \<and> turns \<le> 2 * empties b + 2 \<and> valid_boards (boards s)"
proof -
  have i: "\<forall>bx<N_GAMES. game_inv (boards (init_state b) bx) (player_status (init_state b) bx) planner"
    using init_inv(1)[OF v] by (simp add: init_state_def)
  have m: "\<forall>bx<N_GAMES. game_measure (boards (init_state b) bx) (player_status (init_state b) bx) planner
            \<le> 2 * empties b + 2"
    using init_inv(2)[OF v] by (simp add: init_state_def)
  from loop_bound[OF u p i m, of 0 ap] show ?thesis by simp
qed

section \<open>Running a game through the loop\<close>

lemma flipped_cells_ray:
  assumes p: "p = 1 \<or> p = 2"
  shows "c \<in> set (case List.find (line_of b x y ray p) [1..<8] of
                      None \<Rightarrow> []
                    | Some k \<Rightarrow> map (ray_cell x y ray) [1..<Suc k])
         \<longleftrightarrow> flipped_along b x y ray p c"
proof (cases "List.find (line_of b x y ray p) [1..<8]")
  case None
  then have "\<not> line_of b x y ray p k" if "k \<in> {1..7}" for k
    using that by (auto simp: find_None_iff)
  then have "\<not> flipped_along b x y ray p c" unfolding flipped_along_def by blast
  then show ?thesis using None by simp
next
  case (Some k)
  then have k: "line_of b x y ray p k" "k \<in> {1..7}"
    by (auto simp: find_Some_iff)
  have "set (map (ray_cell x y ray) [1..<Suc k]) = ray_cell x y ray ` {1..k}" by auto
  then show ?thesis using Some flipped_along_line[OF k p, of c] by auto
qed

lemma flipped_cells_set:
  assumes p: "p = 1 \<or> p = 2"
  shows "c \<in> set (flipped_cells b x y p) \<longleftrightarrow> flipped b x y p c"
  unfolding flipped_cells_def flipped_def using flipped_cells_ray[OF p] by simp

lemma put_cells_move:
  assumes p: "p = 1 \<or> p = 2"
  shows "put_cells b (m # flipped_cells b (fst m) (snd m) p) p = apply_move b (fst m) (snd m) p"
  unfolding put_cells_def apply_move_def using flipped_cells_set[OF p] by (auto simp: fun_eq_iff)

lemma flipped_cells_legal:
  assumes p: "p = 1 \<or> p = 2" and z: "b m = 0" and f: "flipped_cells b (fst m) (snd m) p \<noteq> []"
  shows "legal_move b p (fst m) (snd m)"
proof -
  from f obtain c where "c \<in> set (flipped_cells b (fst m) (snd m) p)" by (cases "flipped_cells b (fst m) (snd m) p") auto
  then have "flipped b (fst m) (snd m) p c" using flipped_cells_set[OF p] by simp
  then obtain ray where "ray \<in> set RAYS" "flipped_along b (fst m) (snd m) ray p c"
    unfolding flipped_def by blast
  then have "\<exists>ray\<in>set RAYS. capture_line b (fst m) (snd m) ray p"
    using flipped_along_capture by blast
  then show ?thesis using z by (simp add: legal_move_def)
qed

lemma range8_nth:
  assumes "x \<in> {0..7}"
  shows "range8 ! nat x = x" "nat x < length range8"
proof -
  have "x = 0 \<or> x = 1 \<or> x = 2 \<or> x = 3 \<or> x = 4 \<or> x = 5 \<or> x = 6 \<or> x = 7"
    using assms by auto
  then show "range8 ! nat x = x" by (auto simp: range8_def)
  show "nat x < length range8" using assms by (auto simp: range8_def)
qed

lemma board_of_rows_of:
  assumes "clean_board b"
  shows "board_of (rows_of b) = b"
proof
  fix c :: "int \<times> int"
  show "board_of (rows_of b) c = b c"
  proof (cases "on_board c")
    case True
    then have x: "fst c \<in> {0..7}" and y: "snd c \<in> {0..7}" by (auto simp: on_board_def)
    have "rows_of b ! nat (fst c) ! nat (snd c) = b (fst c, snd c)"
      using range8_nth[OF x] range8_nth[OF y] by (simp add: rows_of_def)
    then show ?thesis using True by (simp add: board_of_def)
  next
    case False
    moreover from False have "b c = 0" using assms unfolding clean_board_def by blast
    ultimately show ?thesis by (simp add: board_of_def)
  qed
qed

lemma clean_apply_move:
  assumes "clean_board b" "on_board (x, y)"
  shows "clean_board (apply_move b x y p)"
  unfolding clean_board_def
proof (intro allI impI)
  fix c assume c: "\<not> on_board c"
  have "\<not> flipped b x y p c"
    using c unfolding flipped_def flipped_along_def line_of_def by auto
  moreover have "c \<noteq> (x, y)" using c assms(2) by auto
  moreover have "b c = 0" using assms(1) c unfolding clean_board_def by blast
  ultimately show "apply_move b x y p c = 0" by (simp add: apply_move_def)
qed

lemma clean_board_of: "clean_board (board_of rows)"
  by (simp add: board_of_def clean_board_def)

lemma status_sum_uniform: "status_sum (uniform_state b0 b f) = int N_GAMES * (f 0 + f 1)"
  by (rule status_sum_const) (simp add: uniform_state_def)

lemma valid_boards_uniform:
  assumes "valid_board b"
  shows "valid_boards (boards (uniform_state b0 b f))"
  using assms by (simp add: valid_boards_def uniform_state_def)

lemma turn_uniform_pass:
  assumes p: "p = 1 \<or> p = 2" and v: "valid_board b" and nm: "no_move b p"
  shows "\<exists>ap'. turn r p ap (uniform_state b0 b f) = Some (Inr (ap', uniform_state b0 b (f(p - 1 := 1))))"
proof -
  let ?s = "uniform_state b0 b f"
  have "\<forall>bx<N_GAMES. no_move (boards ?s bx) p" using nm by (simp add: uniform_state_def)
  from turn_pass_all[OF p valid_boards_uniform[OF v] this, where r = r and ap = ap]
  have "turn r p ap ?s = Some (Inr (scores r (boards ?s) p ap,
           ?s\<lparr>player_status := (\<lambda>bx. if bx < N_GAMES then (player_status ?s bx)(p - 1 := 1)
                                        else player_status ?s bx)\<rparr>))" .
  moreover have "?s\<lparr>player_status := (\<lambda>bx. if bx < N_GAMES then (player_status ?s bx)(p - 1 := 1)
                                        else player_status ?s bx)\<rparr>
                 = uniform_state b0 b (f(p - 1 := 1))"
    by (auto simp: uniform_state_def fun_eq_iff)
  ultimately show ?thesis by simp
qed

lemma select_target:
  assumes p: "p = 1 \<or> p = 2" and v: "valid_boards bs" and bx: "bx < N_GAMES"
    and m: "on_board m" and l: "legal_move (bs bx) p (fst m) (snd m)"
  shows "select_action (scores (target_draws m) bs p ap) bx = m"
proof -
  let ?sc = "scores (target_draws m) bs p ap"
  obtain x y where xy: "m = (x, y)" by (cases m)
  have mx: "fst m \<in> {0..7}" "snd m \<in> {0..7}" using m by (auto simp: on_board_def)
  have "score (target_draws m) bs p (bx, x, y) = 3 / 4"
    using l unfolding xy by (auto simp: legal_move_def target_draws_def)
  then have sm: "?sc (bx, fst m, snd m) = 3 / 4"
    using scores_game[OF v p bx mx, of "target_draws m" ap] unfolding xy by simp
  have other: "?sc (bx, tx, ty) \<le> 1 / 4" if "tx \<in> {0..7}" "ty \<in> {0..7}" "(tx, ty) \<noteq> m" for tx ty
    using scores_game[OF v p bx that(1,2), of "target_draws m" ap] that(3)
    by (auto simp: target_draws_def)
  have "\<exists>tx\<in>{0..7}. \<exists>ty\<in>{0..7}. ?sc (bx, tx, ty) > 0" using sm mx by force
  then show ?thesis
  proof (rule select_action_some)
    fix r c assume s: "select_action ?sc bx = (r, c)" "r \<in> {0..7}" "c \<in> {0..7}"
      "\<forall>tx\<in>{0..7}. \<forall>ty\<in>{0..7}. ?sc (bx, tx, ty) \<le> ?sc (bx, r, c)"
    have "3 / 4 \<le> ?sc (bx, r, c)" using s(4) mx sm by force
    then have "(r, c) = m" using other[OF s(2,3)] by force
    then show ?thesis using s(1) by simp
  qed
qed

lemma turn_uniform_play:
  assumes p: "p = 1 \<or> p = 2" and v: "valid_board b"
    and m: "on_board m" and l: "legal_move b p (fst m) (snd m)"
  shows "\<exists>ap'. turn (target_draws m) p ap (uniform_state b0 b f)
               = Some (Inr (ap', uniform_state b0 (apply_move b (fst m) (snd m) p) (f(p - 1 := 0))))"
proof -
  let ?s = "uniform_state b0 b f"
  let ?sc = "scores (target_draws m) (boards ?s) p ap"
  have vs: "valid_boards (boards ?s)" by (rule valid_boards_uniform[OF v])
  have sel: "select_action ?sc bx = m" if "bx < N_GAMES" for bx
    by (rule select_target[OF p vs that m]) (use l that in \<open>simp add: uniform_state_def\<close>)
  obtain x y where xy: "m = (x, y)" by (cases m)
  have ne: "x \<noteq> -1" using m xy by (auto simp: on_board_def)
  have mb: "move_board ?sc p bx (boards ?s bx) = apply_move b (fst m) (snd m) p" if "bx < N_GAMES" for bx
    using sel[OF that] ne that unfolding xy by (simp add: move_board_def uniform_state_def)
  have mf: "move_flag ?sc bx = 0" if "bx < N_GAMES" for bx
    using sel[OF that] ne unfolding xy by (simp add: move_flag_def)
  have "?s\<lparr>boards := (\<lambda>bx. if bx < N_GAMES then move_board ?sc p bx (boards ?s bx) else boards ?s bx),
            player_status := (\<lambda>bx. if bx < N_GAMES then (player_status ?s bx)(p - 1 := move_flag ?sc bx)
                                    else player_status ?s bx)\<rparr>
        = uniform_state b0 (apply_move b (fst m) (snd m) p) (f(p - 1 := 0))"
    using mb mf by (auto simp: uniform_state_def fun_eq_iff)
  then show ?thesis using turn_eq[OF p vs, of "target_draws m" ap] by simp
qed

lemma loop_exit:
  assumes "\<not> status_sum s < 2 * int N_GAMES"
  shows "rollout_loop rng t p ap s = Some (Inr (t, s))"
  by (subst rollout_loop.simps) (simp only: assms if_False)

lemma loop_step:
  assumes "status_sum s < 2 * int N_GAMES" and "turn (rng t) p ap s = Some (Inr (ap', s'))"
  shows "rollout_loop rng t p ap s = rollout_loop rng (Suc t) (3 - p) ap' s'"
  by (subst rollout_loop.simps) (simp only: assms if_True option.case sum.case prod.case)

lemma run_end:
  assumes p: "p = 1 \<or> p = 2" and v: "valid_board b" and e: "empties b = 0"
    and f: "f (3 - p - 1) = 0" "f (p - 1) = 0 \<or> f (p - 1) = 1"
  shows "\<exists>s. rollout_loop rng t p ap (uniform_state b0 b f) = Some (Inr (t + 2, s))"
proof -
  have p': "3 - p = 1 \<or> 3 - p = 2" using p by auto
  let ?f1 = "f(p - 1 := 1)"
  let ?f2 = "?f1(3 - p - 1 := 1)"
  have n: "0 < N_GAMES" by (simp add: N_GAMES_def)
  have s0: "f 0 + f 1 \<le> 1" using p f by auto
  have s1: "?f1 0 + ?f1 1 = 1" using p f by auto
  have s2: "?f2 0 + ?f2 1 = 2" using p f by auto
  have k0: "status_sum (uniform_state b0 b f) < 2 * int N_GAMES"
    unfolding status_sum_uniform using s0 n by (auto simp: mult_le_cancel_left_pos intro: le_less_trans[of _ "int N_GAMES * 1"])
  have k1: "status_sum (uniform_state b0 b ?f1) < 2 * int N_GAMES"
    unfolding status_sum_uniform s1 using n by simp
  have k2: "\<not> status_sum (uniform_state b0 b ?f2) < 2 * int N_GAMES"
    unfolding status_sum_uniform s2 by simp
  from turn_uniform_pass[OF p v no_move_empties[OF e], of "rng t" ap b0 f]
  obtain a1 where t1: "turn (rng t) p ap (uniform_state b0 b f) = Some (Inr (a1, uniform_state b0 b ?f1))"
    by blast
  from turn_uniform_pass[OF p' v no_move_empties[OF e], of "rng (Suc t)" a1 b0 ?f1]
  obtain a2 where t2: "turn (rng (Suc t)) (3 - p) a1 (uniform_state b0 b ?f1)
                       = Some (Inr (a2, uniform_state b0 b ?f2))"
    by blast
  have "rollout_loop rng t p ap (uniform_state b0 b f)
        = rollout_loop rng (Suc t) (3 - p) a1 (uniform_state b0 b ?f1)"
    by (rule loop_step[where rng = rng and t = t, OF k0 t1])
  also have "\<dots> = rollout_loop rng (Suc (Suc t)) (3 - (3 - p)) a2 (uniform_state b0 b ?f2)"
    by (rule loop_step[where rng = rng and t = "Suc t", OF k1 t2])
  also have "\<dots> = Some (Inr (Suc (Suc t), uniform_state b0 b ?f2))"
    by (rule loop_exit[OF k2])
  finally show ?thesis by simp
qed

lemma run_game:
  assumes "play ms rows p = Some rowsT" and "p = 1 \<or> p = 2" and "valid_board (board_of rows)"
    and "empties (board_of rowsT) = 0"
    and "f (3 - p - 1) = 0" and "f (p - 1) = 0 \<or> f (p - 1) = 1"
    and "\<forall>i<length ms. rng (t + i) = target_draws (ms ! i)"
  shows "\<exists>s. rollout_loop rng t p ap (uniform_state b0 (board_of rows) f)
              = Some (Inr (t + length ms + 2, s))"
  using assms
proof (induction ms arbitrary: rows p f t ap)
  case Nil
  then have "rowsT = rows" by simp
  then show ?case using run_end[OF Nil.prems(2,3) _ Nil.prems(5,6), of rng t ap b0] Nil.prems(4) by simp
next
  case (Cons m ms)
  let ?b = "board_of rows"
  let ?b' = "apply_move ?b (fst m) (snd m) p"
  let ?f' = "f(p - 1 := 0)"
  note p = Cons.prems(2)
  have p': "3 - p = 1 \<or> 3 - p = 2" using p by auto
  from Cons.prems(1) have m: "on_board m" "?b m = 0"
    and fc: "flipped_cells ?b (fst m) (snd m) p \<noteq> []"
    and pl: "play ms (rows_of (put_cells ?b (m # flipped_cells ?b (fst m) (snd m) p) p)) (3 - p) = Some rowsT"
    by (auto split: if_splits list.splits)
  have l: "legal_move ?b p (fst m) (snd m)" by (rule flipped_cells_legal[OF p m(2) fc])
  have om: "on_board (fst m, snd m)" using m(1) by simp
  have cb: "clean_board ?b'" by (rule clean_apply_move[OF clean_board_of om])
  have rb: "board_of (rows_of (put_cells ?b (m # flipped_cells ?b (fst m) (snd m) p) p)) = ?b'"
    unfolding put_cells_move[OF p] by (rule board_of_rows_of[OF cb])
  have v': "valid_board ?b'" by (rule valid_apply_move[OF Cons.prems(3) p])
  have n: "0 < N_GAMES" by (simp add: N_GAMES_def)
  have "f 0 + f 1 \<le> 1" using p Cons.prems(5,6) by auto
  then have k: "status_sum (uniform_state b0 ?b f) < 2 * int N_GAMES"
    unfolding status_sum_uniform using n
    by (auto simp: mult_le_cancel_left_pos intro: le_less_trans[of _ "int N_GAMES * 1"])
  have r0: "rng t = target_draws m" using Cons.prems(7) by force
  from turn_uniform_play[OF p Cons.prems(3) m(1) l, of ap b0 f]
  obtain ap' where tu: "turn (rng t) p ap (uniform_state b0 ?b f) = Some (Inr (ap', uniform_state b0 ?b' ?f'))"
    unfolding r0 by blast
  have f1: "?f' (3 - (3 - p) - 1) = 0" by simp
  have f2: "?f' (3 - p - 1) = 0 \<or> ?f' (3 - p - 1) = 1" using p Cons.prems(5) by auto
  have rs: "\<forall>i<length ms. rng (Suc t + i) = target_draws (ms ! i)"
  proof (intro allI impI)
    fix i assume "i < length ms"
    then have "rng (t + Suc i) = target_draws ((m # ms) ! Suc i)" using Cons.prems(7) by force
    then show "rng (Suc t + i) = target_draws (ms ! i)" by simp
  qed
  let ?rows' = "rows_of (put_cells ?b (m # flipped_cells ?b (fst m) (snd m) p) p)"
  have v'': "valid_board (board_of ?rows')" unfolding rb by (rule v')
  have "\<exists>s. rollout_loop rng (Suc t) (3 - p) ap' (uniform_state b0 (board_of ?rows') ?f')
              = Some (Inr (Suc t + length ms + 2, s))"
    by (rule Cons.IH[OF pl p' v'' Cons.prems(4) f1 f2 rs])
  then obtain s where "rollout_loop rng (Suc t) (3 - p) ap' (uniform_state b0 ?b' ?f')
                  = Some (Inr (Suc t + length ms + 2, s))"
    unfolding rb by blast
  moreover have "rollout_loop rng t p ap (uniform_state b0 ?b f)
                 = rollout_loop rng (Suc t) (3 - p) ap' (uniform_state b0 ?b' ?f')"
    by (rule loop_step[where rng = rng and t = t, OF k tu])
  ultimately show ?case by simp
qed

lemma init_uniform: "init_state b = uniform_state b b (\<lambda>j. 0)"
  by (auto simp: init_state_def uniform_state_def fun_eq_iff)

lemma opening_rows_board: "initial_board = board_of opening_rows"
proof -
  have "clean_board initial_board"
    by (auto simp: clean_board_def on_board_def initial_board_def)
  then have "board_of (rows_of initial_board) = initial_board" by (rule board_of_rows_of)
  moreover have "rows_of initial_board = opening_rows"
    by (simp add: rows_of_def range8_def initial_board_def opening_rows_def)
  ultimately show ?thesis by simp
qed

lemma full_game_play: "play full_game opening_rows 1 = Some final_rows"
  by code_simp

lemma final_rows_full: "empties (board_of final_rows) = 0"
  by code_simp

lemma full_game_run:
  "\<exists>s. rollout_loop (game_draws full_game) 0 1 zero_grid (init_state initial_board) = Some (Inr (62, s))"
proof -
  have v: "valid_board (board_of opening_rows)"
    unfolding opening_rows_board[symmetric] by (auto simp: valid_board_def initial_board_def)
  have r: "\<forall>i<length full_game. game_draws full_game (0 + i) = target_draws (full_game ! i)"
    by (simp add: game_draws_def)
  have len: "length full_game = 60" by (simp add: full_game_def)
  from run_game[OF full_game_play _ v final_rows_full _ _ r, of "\<lambda>j. 0" zero_grid initial_board]
  show ?thesis unfolding init_uniform opening_rows_board[symmetric] len by simp
qed

section \<open>A pass in the middle of a game\<close>

lemma total_empty_uniform: "total_empty (uniform_state b0 b f) = N_GAMES * empties b"
proof -
  have "map (\<lambda>bx. empties (boards (uniform_state b0 b f) bx)) [0..<N_GAMES]
        = map (\<lambda>bx. empties b) [0..<N_GAMES]"
    by (rule map_cong) (simp_all add: uniform_state_def)
  then have "total_empty (uniform_state b0 b f) = sum_list (map (\<lambda>bx. empties b) [0..<N_GAMES])"
    unfolding total_empty_def by (rule arg_cong)
  also have "\<dots> = N_GAMES * empties b" by (simp add: sum_list_triv)
  finally show ?thesis .
qed

lemma legal_flipped_cells:
  assumes p: "p = 1 \<or> p = 2" and l: "legal_move b p x y"
  shows "flipped_cells b x y p \<noteq> []"
proof -
  from l obtain ray k where r: "ray \<in> set RAYS" and k: "k \<in> {1..7}" and ln: "line_of b x y ray p k"
    unfolding legal_move_def capture_line_def by blast
  have "1 \<in> {1..k}" using k by simp
  then have "flipped_along b x y ray p (ray_cell x y ray 1)"
    unfolding flipped_along_def using k ln by blast
  then have "flipped b x y p (ray_cell x y ray 1)" unfolding flipped_def using r by blast
  then have "ray_cell x y ray 1 \<in> set (flipped_cells b x y p)" using flipped_cells_set[OF p] by simp
  then show ?thesis by auto
qed

lemma no_move_cells:
  assumes p: "p = 1 \<or> p = 2"
    and a: "list_all (\<lambda>c. b c \<noteq> 0 \<or> flipped_cells b (fst c) (snd c) p = []) cells"
  shows "no_move b p"
  unfolding no_move_def
proof (intro ballI notI)
  fix x y :: int assume x: "x \<in> {0..7}" and y: "y \<in> {0..7}" and l: "legal_move b p x y"
  have "(x, y) \<in> set cells" using x y by (simp add: set_cells on_board_def)
  then have "b (x, y) \<noteq> 0 \<or> flipped_cells b x y p = []"
    using a by (auto simp: list_all_iff)
  moreover have "b (x, y) = 0" using l by (simp add: legal_move_def)
  ultimately show False using legal_flipped_cells[OF p l] by simp
qed

lemma pass_game_play: "play pass_game opening_rows 1 = Some pass_rows"
  by code_simp

lemma pass_rows_cells:
  "list_all (\<lambda>c. board_of pass_rows c \<noteq> 0 \<or> flipped_cells (board_of pass_rows) (fst c) (snd c) 1 = []) cells"
  by code_simp

lemma pass_rows_no_move: "no_move (board_of pass_rows) 1"
  by (rule no_move_cells[OF _ pass_rows_cells]) simp

lemma pass_rows_move: "legal_move (board_of pass_rows) 2 2 0"
proof -
  have "line_of (board_of pass_rows) 2 0 (-1, 1) 2 1"
    by (simp add: line_of_def ray_cell_def on_board_def board_of_def pass_rows_def)
  then have "capture_line (board_of pass_rows) 2 0 (-1, 1) 2"
    unfolding capture_line_def by (intro bexI[of _ 1]) simp_all
  moreover have "(-1, 1) \<in> set RAYS" by (simp add: RAYS_def)
  ultimately show ?thesis by (auto simp: legal_move_def board_of_def on_board_def pass_rows_def)
qed

lemma pass_rows_valid: "valid_board (board_of pass_rows)"
proof -
  have "list_all (\<lambda>c. board_of pass_rows c \<in> {0, 1, 2}) cells" by code_simp
  then show ?thesis by (auto simp: valid_board_def list_all_iff set_cells on_board_def)
qed

lemma pass_rows_turn:
  "\<exists>a. turn r 1 ap (init_state (board_of pass_rows))
        = Some (Inr (a, uniform_state (board_of pass_rows) (board_of pass_rows) ((\<lambda>j. 0)(0 := 1))))"
  using turn_uniform_pass[OF _ pass_rows_valid pass_rows_no_move, of r ap "board_of pass_rows" "\<lambda>j. 0"]
  unfolding init_uniform by simp

text \<open>
  C6, as the specification states it, fails. From the opening position the loop can
  run 62 turns: sixty moves fill the board and two more turns, in which every game
  passes, set the flags that end it. And a turn need not take an empty cell away
  while a game goes on: after the eight moves of \<open>pass_game\<close> from the opening
  position player 1 has no legal move and player 2 has one; the loop is not over, and
  the turn of player 1 leaves the total of empty cells of the batch as it is.
\<close>

theorem rollout_loop_counterexample:
  "map_option (map_sum id fst)
       (rollout_loop (game_draws full_game) 0 1 zero_grid (init_state initial_board))
     = Some (Inr 62)
   \<and> play pass_game opening_rows 1 = Some pass_rows
   \<and> legal_move (board_of pass_rows) 2 2 0
   \<and> status_sum (init_state (board_of pass_rows)) < 2 * int N_GAMES
   \<and> map_option (map_sum id (total_empty \<circ> snd))
       (turn (half_draws 0) 1 zero_grid (init_state (board_of pass_rows)))
     = Some (Inr (total_empty (init_state (board_of pass_rows))))"
proof -
  from full_game_run obtain s where
    "rollout_loop (game_draws full_game) 0 1 zero_grid (init_state initial_board) = Some (Inr (62, s))"
    by blast
  then have 1: "map_option (map_sum id fst)
       (rollout_loop (game_draws full_game) 0 1 zero_grid (init_state initial_board)) = Some (Inr 62)"
    by simp
  from pass_rows_turn[of "half_draws 0" zero_grid] obtain a where
    "turn (half_draws 0) 1 zero_grid (init_state (board_of pass_rows))
        = Some (Inr (a, uniform_state (board_of pass_rows) (board_of pass_rows) ((\<lambda>j. 0)(0 := 1))))"
    by blast
  then have 2: "map_option (map_sum id (total_empty \<circ> snd))
       (turn (half_draws 0) 1 zero_grid (init_state (board_of pass_rows)))
     = Some (Inr (total_empty (init_state (board_of pass_rows))))"
    by (simp add: init_uniform total_empty_uniform)
  have 3: "status_sum (init_state (board_of pass_rows)) < 2 * int N_GAMES"
    by (simp add: init_uniform status_sum_uniform N_GAMES_def)
  show ?thesis using 1 2 3 pass_rows_move pass_game_play by simp
qed

section \<open>Termination of the loop whatever the draws\<close>

lemma score_pos_iff:
  "0 < score r bs p (bx, tx, ty) \<longleftrightarrow> legal_move (bs bx) p tx ty \<and> 0 < r (bx, tx, ty)"
  by (auto simp: legal_move_def)

lemma game_turn:
  assumes p: "p = 1 \<or> p = 2" and v: "valid_boards (boards s)"
    and t: "turn r p ap s = Some (Inr (ap', s'))" and bx: "bx < N_GAMES"
  shows "(\<not> can_play r (boards s bx) p bx \<longrightarrow>
            boards s' bx = boards s bx \<and> player_status s' bx = (player_status s bx)(p - 1 := 1))
       \<and> (can_play r (boards s bx) p bx \<longrightarrow>
            (\<exists>ax\<in>{0..7}. \<exists>ay\<in>{0..7}. legal_move (boards s bx) p ax ay
                \<and> boards s' bx = apply_move (boards s bx) ax ay p)
            \<and> player_status s' bx = (player_status s bx)(p - 1 := 0))"
proof -
  let ?sc = "scores r (boards s) p ap"
  from t turn_eq[OF p v, of r ap]
  have b': "boards s' bx = move_board ?sc p bx (boards s bx)"
    and f': "player_status s' bx = (player_status s bx)(p - 1 := move_flag ?sc bx)"
    using bx by auto
  have sc: "0 < ?sc (bx, tx, ty) \<longleftrightarrow> legal_move (boards s bx) p tx ty \<and> 0 < r (bx, tx, ty)"
    if "tx \<in> {0..7}" "ty \<in> {0..7}" for tx ty
    using scores_game[OF v p bx that, of r ap] score_pos_iff[of r "boards s" p bx tx ty] by simp
  show ?thesis
  proof (cases "can_play r (boards s bx) p bx")
    case False
    then have "\<forall>tx\<in>{0..7}. \<forall>ty\<in>{0..7}. \<not> 0 < ?sc (bx, tx, ty)"
      using sc unfolding can_play_def by blast
    then have "\<forall>tx\<in>{0..7}. \<forall>ty\<in>{0..7}. ?sc (bx, tx, ty) \<le> 0" by (simp add: not_less)
    then have "select_action ?sc bx = (-1, -1)" by (rule select_action_none)
    then show ?thesis using False b' f' by (simp add: move_board_def move_flag_def)
  next
    case True
    then have "\<exists>tx\<in>{0..7}. \<exists>ty\<in>{0..7}. ?sc (bx, tx, ty) > 0"
      using sc unfolding can_play_def by blast
    then show ?thesis
    proof (rule select_action_some)
      fix ax ay assume a: "select_action ?sc bx = (ax, ay)" "ax \<in> {0..7}" "ay \<in> {0..7}"
        "0 < ?sc (bx, ax, ay)"
      have l: "legal_move (boards s bx) p ax ay" using a(4) sc[OF a(2,3)] by simp
      have n: "ax \<noteq> -1" using a(2) by auto
      have "boards s' bx = apply_move (boards s bx) ax ay p"
        using b' a(1) n by (simp add: move_board_def)
      moreover have "player_status s' bx = (player_status s bx)(p - 1 := 0)"
        using f' a(1) n by (simp add: move_flag_def)
      ultimately show ?thesis using True a(2,3) l by blast
    qed
  qed
qed

lemma game_turn_empties:
  assumes p: "p = 1 \<or> p = 2" and v: "valid_boards (boards s)"
    and t: "turn r p ap s = Some (Inr (ap', s'))" and bx: "bx < N_GAMES"
  shows "valid_board (boards s' bx)"
    and "\<not> can_play r (boards s bx) p bx \<Longrightarrow> boards s' bx = boards s bx"
    and "can_play r (boards s bx) p bx \<Longrightarrow> empties (boards s' bx) + 1 = empties (boards s bx)"
    and "empties (boards s' bx) \<le> empties (boards s bx)"
proof -
  note g = game_turn[OF p v t bx]
  have vb: "valid_board (boards s bx)" using v bx by (simp add: valid_boards_def)
  show 2: "boards s' bx = boards s bx" if "\<not> can_play r (boards s bx) p bx"
    using g that by simp
  show 3: "empties (boards s' bx) + 1 = empties (boards s bx)" if c: "can_play r (boards s bx) p bx"
  proof -
    from g c obtain ax ay where a: "ax \<in> {0..7}" "ay \<in> {0..7}" "legal_move (boards s bx) p ax ay"
      "boards s' bx = apply_move (boards s bx) ax ay p" by blast
    have "on_board (ax, ay)" using a(1,2) by (simp add: on_board_def)
    from empties_apply_move[OF a(3) p this] show ?thesis using a(4) by simp
  qed
  show "valid_board (boards s' bx)"
  proof (cases "can_play r (boards s bx) p bx")
    case False
    then show ?thesis using 2 vb by simp
  next
    case True
    with g obtain ax ay where "boards s' bx = apply_move (boards s bx) ax ay p" by blast
    then show ?thesis using valid_apply_move[OF vb p] by simp
  qed
  show "empties (boards s' bx) \<le> empties (boards s bx)"
    using 2 3 by (cases "can_play r (boards s bx) p bx") auto
qed

lemma turn_total:
  assumes p: "p = 1 \<or> p = 2" and v: "valid_boards (boards s)"
    and t: "turn r p ap s = Some (Inr (ap', s'))"
  shows "total_empty s' \<le> total_empty s"
    and "(\<exists>bx<N_GAMES. can_play r (boards s bx) p bx) \<longleftrightarrow> total_empty s' < total_empty s"
proof -
  note g = game_turn_empties[OF p v t]
  have le: "\<forall>bx\<in>set [0..<N_GAMES]. empties (boards s' bx) \<le> empties (boards s bx)"
    using g(4) by simp
  have lt: "(\<exists>bx\<in>set [0..<N_GAMES]. empties (boards s' bx) < empties (boards s bx))
            \<longleftrightarrow> (\<exists>bx<N_GAMES. can_play r (boards s bx) p bx)"
  proof
    assume "\<exists>bx\<in>set [0..<N_GAMES]. empties (boards s' bx) < empties (boards s bx)"
    then obtain bx where bx: "bx < N_GAMES" "empties (boards s' bx) < empties (boards s bx)" by auto
    then have "can_play r (boards s bx) p bx" using g(2)[OF bx(1)] by force
    then show "\<exists>bx<N_GAMES. can_play r (boards s bx) p bx" using bx(1) by blast
  next
    assume "\<exists>bx<N_GAMES. can_play r (boards s bx) p bx"
    then obtain bx where bx: "bx < N_GAMES" "can_play r (boards s bx) p bx" by blast
    then have "empties (boards s' bx) < empties (boards s bx)" using g(3)[OF bx] by simp
    then show "\<exists>bx\<in>set [0..<N_GAMES]. empties (boards s' bx) < empties (boards s bx)"
      using bx(1) by auto
  qed
  note S = sum_list_less_iff[OF le]
  show "total_empty s' \<le> total_empty s" using S by (simp add: total_empty_def)
  show "(\<exists>bx<N_GAMES. can_play r (boards s bx) p bx) \<longleftrightarrow> total_empty s' < total_empty s"
    using S lt by (simp add: total_empty_def)
qed

lemma loop_cond_flags:
  assumes "flags_ok s"
  shows "status_sum s < 2 * int N_GAMES \<longleftrightarrow> \<not> (all_passed s 1 \<and> all_passed s 2)"
proof -
  let ?g = "\<lambda>bx. player_status s bx 0 + player_status s bx 1"
  have fs: "?g bx \<le> 2" "?g bx < 2 \<longleftrightarrow> player_status s bx 0 \<noteq> 1 \<or> player_status s bx 1 \<noteq> 1"
    if "bx < N_GAMES" for bx
    using assms that unfolding flags_ok_def by force+
  have le: "\<forall>bx\<in>set [0..<N_GAMES]. ?g bx \<le> 2" using fs(1) by simp
  have "status_sum s < 2 * int N_GAMES \<longleftrightarrow> (\<exists>bx\<in>set [0..<N_GAMES]. ?g bx < 2)"
    using sum_list_two[OF le] by (simp add: status_sum_def)
  also have "\<dots> \<longleftrightarrow> (\<exists>bx<N_GAMES. player_status s bx 0 \<noteq> 1 \<or> player_status s bx 1 \<noteq> 1)"
    using fs(2) by auto
  also have "\<dots> \<longleftrightarrow> \<not> (all_passed s 1 \<and> all_passed s 2)"
    by (auto simp: all_passed_def)
  finally show ?thesis .
qed

lemma turn_measure:
  assumes p: "p = 1 \<or> p = 2" and v: "valid_boards (boards s)" and f: "flags_ok s"
    and c: "status_sum s < 2 * int N_GAMES"
  obtains ap' s' where "turn r p ap s = Some (Inr (ap', s'))" "valid_boards (boards s')"
    "flags_ok s'" "loop_measure s' (3 - p) < loop_measure s p"
proof -
  from turn_eq[OF p v, of r ap] obtain ap' s' where t: "turn r p ap s = Some (Inr (ap', s'))"
    by blast
  note g = game_turn[OF p v t]
  note e = game_turn_empties[OF p v t]
  have v': "valid_boards (boards s')" using e(1) by (simp add: valid_boards_def)
  have f': "flags_ok s'"
    unfolding flags_ok_def
  proof (intro allI impI)
    fix bx assume bx: "bx < N_GAMES"
    have o: "player_status s bx 0 \<in> {0, 1}" "player_status s bx 1 \<in> {0, 1}"
      using f bx by (simp_all add: flags_ok_def)
    have "player_status s' bx = (player_status s bx)(p - 1 := 1)
        \<or> player_status s' bx = (player_status s bx)(p - 1 := 0)"
      using g[OF bx] by (cases "can_play r (boards s bx) p bx") simp_all
    then have d: "player_status s' bx 0 \<in> {player_status s bx 0, 0, 1}"
      "player_status s' bx 1 \<in> {player_status s bx 1, 0, 1}"
      by auto
    show "player_status s' bx 0 \<in> {0, 1} \<and> player_status s' bx 1 \<in> {0, 1}"
      using o d by auto
  qed
  have q: "3 - (3 - p) = p" by simp
  have c1: "\<not> (all_passed s p \<and> all_passed s (3 - p))"
    using c loop_cond_flags[OF f] p by auto
  have m: "loop_measure s' (3 - p) < loop_measure s p"
  proof (cases "\<exists>bx<N_GAMES. can_play r (boards s bx) p bx")
    case True
    then have "total_empty s' < total_empty s" using turn_total(2)[OF p v t] by simp
    moreover have "loop_measure s' (3 - p) \<le> 2 * total_empty s' + 2"
      by (simp add: loop_measure_def)
    moreover have "2 * total_empty s + 1 \<le> loop_measure s p"
      using c1 by (auto simp: loop_measure_def)
    ultimately show ?thesis by linarith
  next
    case False
    then have n: "\<not> can_play r (boards s bx) p bx" if "bx < N_GAMES" for bx using that by blast
    have b: "boards s' bx = boards s bx" if "bx < N_GAMES" for bx
      using e(2)[OF that n[OF that]] .
    have fl: "player_status s' bx = (player_status s bx)(p - 1 := 1)" if "bx < N_GAMES" for bx
      using g[OF that] n[OF that] by simp
    have "map (\<lambda>bx. empties (boards s' bx)) [0..<N_GAMES] = map (\<lambda>bx. empties (boards s bx)) [0..<N_GAMES]"
      by (rule map_cong) (simp_all add: b)
    then have te: "total_empty s' = total_empty s"
      unfolding total_empty_def by (rule arg_cong)
    have a1: "all_passed s' p" using fl by (simp add: all_passed_def)
    have "p - 1 \<noteq> 3 - p - 1" using p by auto
    then have a2: "all_passed s' (3 - p) \<longleftrightarrow> all_passed s (3 - p)"
      using fl by (simp add: all_passed_def)
    have "loop_measure s' (3 - p) = 2 * total_empty s + (if \<not> all_passed s (3 - p) then 1 else 0)"
      unfolding loop_measure_def q te using a1 a2 by simp
    then show ?thesis using c1 by (auto simp: loop_measure_def)
  qed
  show ?thesis using that[OF t v' f' m] .
qed

lemma loop_bound_any:
  assumes "p = 1 \<or> p = 2" and "valid_boards (boards s)" and "flags_ok s"
    and "loop_measure s p \<le> n"
  shows "\<exists>turns s'. rollout_loop rng t p ap s = Some (Inr (turns, s')) \<and> turns \<le> t + n"
  using assms
proof (induction n arbitrary: t p ap s)
  case 0
  show ?case
  proof (cases "status_sum s < 2 * int N_GAMES")
    case False
    then show ?thesis using loop_exit[OF False, of rng t p ap] by simp
  next
    case True
    from turn_measure[OF "0.prems"(1,2,3) True, of "rng t" ap] obtain ap' s' where
      "loop_measure s' (3 - p) < loop_measure s p" by blast
    then show ?thesis using "0.prems"(4) by simp
  qed
next
  case (Suc n)
  show ?case
  proof (cases "status_sum s < 2 * int N_GAMES")
    case False
    then show ?thesis using loop_exit[OF False, of rng t p ap] by simp
  next
    case True
    from turn_measure[OF Suc.prems(1,2,3) True, of "rng t" ap] obtain ap' s' where
      t: "turn (rng t) p ap s = Some (Inr (ap', s'))" and v': "valid_boards (boards s')"
      and f': "flags_ok s'" and m: "loop_measure s' (3 - p) < loop_measure s p" by blast
    have p': "3 - p = 1 \<or> 3 - p = 2" using Suc.prems(1) by auto
    have m': "loop_measure s' (3 - p) \<le> n" using m Suc.prems(4) by simp
    from Suc.IH[OF p' v' f' m', of "Suc t" ap'] obtain turns s'' where
      r: "rollout_loop rng (Suc t) (3 - p) ap' s' = Some (Inr (turns, s''))" "turns \<le> Suc t + n"
      by blast
    have "rollout_loop rng t p ap s = rollout_loop rng (Suc t) (3 - p) ap' s'"
      by (rule loop_step[where rng = rng and t = t, OF True t])
    then show ?thesis using r by simp
  qed
qed

lemma init_flags: "flags_ok (init_state b)"
  by (simp add: flags_ok_def init_state_def)

lemma init_measure: "loop_measure (init_state b) p = 2 * (N_GAMES * empties b) + 2"
proof -
  have "0 < N_GAMES" by (simp add: N_GAMES_def)
  then have "\<not> all_passed (init_state b) q" for q
    unfolding all_passed_def init_state_def by auto
  then show ?thesis
    unfolding loop_measure_def by (simp add: init_uniform total_empty_uniform)
qed

lemma rollout_loop_bound_any:
  assumes v: "valid_board b" and p: "planner = 1 \<or> planner = 2"
  shows "\<exists>turns s. rollout_loop rng 0 planner ap (init_state b) = Some (Inr (turns, s))
           \<and> turns \<le> 2 * (N_GAMES * empties b) + 2"
proof -
  have vs: "valid_boards (boards (init_state b))" using v by (simp add: valid_boards_def init_state_def)
  from loop_bound_any[OF p vs init_flags, of "2 * (N_GAMES * empties b) + 2" rng 0 ap]
  show ?thesis using init_measure[of b planner] by simp
qed

lemma no_move_can_play:
  assumes "no_move b p"
  shows "\<not> can_play r b p bx"
  using assms by (auto simp: no_move_def can_play_def)

lemma turn_empties_any:
  assumes p: "p = 1 \<or> p = 2" and v: "valid_boards (boards s)"
  shows "\<exists>a' s'. turn r p a s = Some (Inr (a', s'))
      \<and> (\<forall>bx<N_GAMES.
            (if can_play r (boards s bx) p bx
             then empties (boards s' bx) + 1 = empties (boards s bx)
             else boards s' bx = boards s bx)
            \<and> (no_move (boards s bx) p \<longrightarrow> boards s' bx = boards s bx))
      \<and> total_empty s' \<le> total_empty s
      \<and> ((\<exists>bx<N_GAMES. can_play r (boards s bx) p bx) \<longleftrightarrow> total_empty s' < total_empty s)"
proof -
  from turn_eq[OF p v, of r a] obtain a' s' where t: "turn r p a s = Some (Inr (a', s'))" by blast
  note e = game_turn_empties[OF p v t]
  have "\<forall>bx<N_GAMES.
            (if can_play r (boards s bx) p bx
             then empties (boards s' bx) + 1 = empties (boards s bx)
             else boards s' bx = boards s bx)
            \<and> (no_move (boards s bx) p \<longrightarrow> boards s' bx = boards s bx)"
    using e(2,3) no_move_can_play[of _ p r] by simp
  then show ?thesis using t turn_total[OF p v t] by blast
qed

lemma opening_can_play: "can_play (half_draws 0) initial_board 1 0"
proof -
  have "line_of initial_board 2 3 (1, 0) 1 1"
    by (simp add: line_of_def ray_cell_def on_board_def initial_board_def)
  then have "capture_line initial_board 2 3 (1, 0) 1"
    unfolding capture_line_def by (intro bexI[of _ 1]) simp_all
  moreover have "(1, 0) \<in> set RAYS" by (simp add: RAYS_def)
  ultimately have "legal_move initial_board 1 2 3"
    by (auto simp: legal_move_def initial_board_def)
  moreover have "0 < half_draws 0 (0, 2, 3)" by (simp add: half_draws_def)
  moreover have "(2::int) \<in> {0..7}" "(3::int) \<in> {0..7}" by simp_all
  ultimately show ?thesis unfolding can_play_def by blast
qed

text \<open>
  C6, amended. From a starting board of empty cells and tokens and either starting
  player, whatever the draws are, the loop of \<open>rollout\<close> returns, after at most twice
  the empty cells of the batch (\<open>N_GAMES\<close> times those of the starting board) plus
  two turns, and after at most twice the empty cells of the starting board plus two
  turns when every draw lies in the open unit interval. In a turn a game in which
  some legal cell of the mover gets a positive draw loses exactly one empty cell,
  and the board of any other game is unchanged; so the total of empty cells never
  grows, and it shrinks exactly in the turns in which some game plays.
\<close>

theorem rollout_loop_terminates:
  assumes "valid_board b" and "planner = 1 \<or> planner = 2"
  shows "(\<exists>turns s. rollout_loop rng 0 planner ap (init_state b) = Some (Inr (turns, s))
             \<and> turns \<le> 2 * (N_GAMES * empties b) + 2
             \<and> ((\<forall>k. unit_draws (rng k)) \<longrightarrow> turns \<le> 2 * empties b + 2))
    \<and> (\<forall>s player r a. valid_boards (boards s) \<and> (player = 1 \<or> player = 2) \<longrightarrow>
          (\<exists>a' s'. turn r player a s = Some (Inr (a', s'))
             \<and> (\<forall>bx<N_GAMES.
                   (if can_play r (boards s bx) player bx
                    then empties (boards s' bx) + 1 = empties (boards s bx)
                    else boards s' bx = boards s bx)
                   \<and> (no_move (boards s bx) player \<longrightarrow> boards s' bx = boards s bx))
             \<and> total_empty s' \<le> total_empty s
             \<and> ((\<exists>bx<N_GAMES. can_play r (boards s bx) player bx)
                  \<longleftrightarrow> total_empty s' < total_empty s)))"
proof
  from rollout_loop_bound_any[OF assms, of rng ap] obtain turns s where
    r: "rollout_loop rng 0 planner ap (init_state b) = Some (Inr (turns, s))"
      "turns \<le> 2 * (N_GAMES * empties b) + 2" by blast
  have "turns \<le> 2 * empties b + 2" if u: "\<forall>k. unit_draws (rng k)"
    using rollout_loop_bound[OF assms u, of ap] r(1) by auto
  then show "\<exists>turns s. rollout_loop rng 0 planner ap (init_state b) = Some (Inr (turns, s))
             \<and> turns \<le> 2 * (N_GAMES * empties b) + 2
             \<and> ((\<forall>k. unit_draws (rng k)) \<longrightarrow> turns \<le> 2 * empties b + 2)"
    using r by blast
next
  show "\<forall>s player r a. valid_boards (boards s) \<and> (player = 1 \<or> player = 2) \<longrightarrow>
          (\<exists>a' s'. turn r player a s = Some (Inr (a', s'))
             \<and> (\<forall>bx<N_GAMES.
                   (if can_play r (boards s bx) player bx
                    then empties (boards s' bx) + 1 = empties (boards s bx)
                    else boards s' bx = boards s bx)
                   \<and> (no_move (boards s bx) player \<longrightarrow> boards s' bx = boards s bx))
             \<and> total_empty s' \<le> total_empty s
             \<and> ((\<exists>bx<N_GAMES. can_play r (boards s bx) player bx)
                  \<longleftrightarrow> total_empty s' < total_empty s))"
    using turn_empties_any by blast
qed

theorem rollout_loop_terminates_witness:
  "valid_board initial_board \<and> unit_draws (half_draws 0) \<and> empties initial_board = 60
   \<and> (\<exists>turns s. rollout_loop half_draws 0 1 zero_grid (init_state initial_board) = Some (Inr (turns, s))
          \<and> turns \<le> 122)
   \<and> (\<exists>turns s. rollout_loop (\<lambda>k. zero_grid) 0 1 zero_grid (init_state initial_board)
                    = Some (Inr (turns, s))
          \<and> turns \<le> 3842)
   \<and> (\<exists>a' s'. turn (half_draws 0) 1 zero_grid (init_state initial_board) = Some (Inr (a', s'))
          \<and> total_empty s' < total_empty (init_state initial_board))"
proof -
  have v: "valid_board initial_board"
    by (auto simp: valid_board_def initial_board_def)
  have u: "\<forall>k. unit_draws (half_draws k)" by (simp add: unit_draws_def half_draws_def)
  have e: "empties initial_board = 60"
    by (simp add: empties_def tokens_def cells_def range8_def initial_board_def)
  note T = rollout_loop_terminates[OF v, of 1 half_draws zero_grid]
  from T u
  have 1: "\<exists>turns s. rollout_loop half_draws 0 1 zero_grid (init_state initial_board) = Some (Inr (turns, s))
          \<and> turns \<le> 2 * empties initial_board + 2" by blast
  from rollout_loop_terminates[OF v, of 1 "\<lambda>k. zero_grid" zero_grid]
  have 2: "\<exists>turns s. rollout_loop (\<lambda>k. zero_grid) 0 1 zero_grid (init_state initial_board)
                    = Some (Inr (turns, s))
          \<and> turns \<le> 2 * (N_GAMES * empties initial_board) + 2" by blast
  have vs: "valid_boards (boards (init_state initial_board))"
    using v by (simp add: valid_boards_def init_state_def)
  have c: "\<exists>bx<N_GAMES. can_play (half_draws 0) (boards (init_state initial_board) bx) 1 bx"
    using opening_can_play by (auto simp: init_state_def N_GAMES_def intro: exI[of _ 0])
  from T[THEN conjunct2, rule_format, where s = "init_state initial_board" and player = 1
      and r = "half_draws 0" and a = zero_grid] vs
  obtain a' s' where t: "turn (half_draws 0) 1 zero_grid (init_state initial_board) = Some (Inr (a', s'))"
    and i: "(\<exists>bx<N_GAMES. can_play (half_draws 0) (boards (init_state initial_board) bx) 1 bx)
            \<longleftrightarrow> total_empty s' < total_empty (init_state initial_board)"
    by auto
  from i c have "total_empty s' < total_empty (init_state initial_board)" by simp
  with t have 3: "\<exists>a' s'. turn (half_draws 0) 1 zero_grid (init_state initial_board) = Some (Inr (a', s'))
          \<and> total_empty s' < total_empty (init_state initial_board)" by blast
  show ?thesis using v u e 1 2 3 by (simp add: N_GAMES_def)
qed

end
